theory Spec2Isabelle
  imports Main "HOL-Library.AList"
begin

section \<open>Python values used by the storage core\<close>

text \<open>
  Paths, file names and file contents are Python \<open>str\<close>/\<open>bytes\<close> values: lists of
  characters. Exceptions are values of \<open>error\<close>; a function that may raise returns
  \<open>error + 'a\<close> with \<open>Inl\<close> for the raised exception. The message of a
  \<open>ValueError\<close> is kept up to the interpolated cause (\<open>f"Cannot save file: {e}"\<close> is
  \<open>ValueError ''Cannot save file''\<close>).
\<close>

type_synonym bytes = string

datatype error =
    ValueError string
  | OSError
  | PermissionError
  | RuntimeError
  | KeyError
  | TypeError
  | ShutilError

definition startswith :: "string \<Rightarrow> string \<Rightarrow> bool" where
  "startswith s p = (take (length p) s = p)"

definition endswith :: "string \<Rightarrow> string \<Rightarrow> bool" where
  "endswith s p = (length p \<le> length s \<and> drop (length s - length p) s = p)"

text \<open>\<open>s.split(c)\<close> for a one-character separator.\<close>

fun split_on :: "char \<Rightarrow> string \<Rightarrow> string list" where
  "split_on c [] = [[]]"
| "split_on c (x # xs) =
     (if x = c then [] # split_on c xs
      else (case split_on c xs of
              [] \<Rightarrow> [[x]]
            | w # ws \<Rightarrow> (x # w) # ws))"

text \<open>\<open>sep.join(parts)\<close>.\<close>

fun join_with :: "string \<Rightarrow> string list \<Rightarrow> string" where
  "join_with sep [] = []"
| "join_with sep [w] = w"
| "join_with sep (w # ws) = w @ sep @ join_with sep ws"

section \<open>posixpath\<close>

text \<open>\<open>os.path.join(a, b)\<close> on POSIX: an absolute second argument replaces the first.\<close>

definition os_path_join :: "string \<Rightarrow> string \<Rightarrow> string" where
  "os_path_join a b =
     (if startswith b ''/'' then b
      else if a = [] \<or> endswith a ''/'' then a @ b
      else a @ ''/'' @ b)"

text \<open>
  \<open>os.path.split(p)\<close>: the head is everything up to the last slash, with its trailing
  slashes removed unless it consists of slashes only; the tail is what follows the last
  slash (empty when \<open>p\<close> ends in a slash).
\<close>

definition tail_of :: "string \<Rightarrow> string" where
  "tail_of p = rev (takeWhile (\<lambda>c. c \<noteq> CHR ''/'') (rev p))"

definition head_of :: "string \<Rightarrow> string" where
  "head_of p =
     (let h = rev (dropWhile (\<lambda>c. c \<noteq> CHR ''/'') (rev p))
      in if h \<noteq> [] \<and> \<not> list_all (\<lambda>c. c = CHR ''/'') h
         then rev (dropWhile (\<lambda>c. c = CHR ''/'') (rev h))
         else h)"

definition os_path_basename :: "string \<Rightarrow> string" where
  "os_path_basename p = tail_of p"

definition os_path_dirname :: "string \<Rightarrow> string" where
  "os_path_dirname p = head_of p"

text \<open>
  \<open>os.path.splitext(p)\<close>: the extension starts at the last dot of the last component,
  unless that component has only leading dots before it.
\<close>

definition os_path_splitext :: "string \<Rightarrow> string \<times> string" where
  "os_path_splitext p =
     (let name = tail_of p;
          ext = rev (takeWhile (\<lambda>c. c \<noteq> CHR ''.'') (rev name));
          stem = take (length name - length ext - 1) name
      in if CHR ''.'' \<in> set name \<and> (\<exists>c \<in> set stem. c \<noteq> CHR ''.'')
         then (take (length p - length ext - 1) p, CHR ''.'' # ext)
         else (p, []))"

section \<open>PathGuard\<close>

text \<open>
  \<open>Path.resolve()\<close> (non-strict) walks the components of an absolute path: empty
  components and \<open>.\<close> are skipped, \<open>..\<close> drops the last resolved component, and a
  component that is a symbolic link is replaced by its target. The symbolic links of the
  machine are a table from the resolved location of a link to its target string. A chain of
  more than \<open>SYMLOOP_MAX\<close> links is a loop, for which pathlib raises \<open>RuntimeError\<close>;
  a NUL character makes the underlying \<open>lstat\<close> raise \<open>ValueError\<close>.
\<close>

type_synonym links = "(string list \<times> string) list"

definition SYMLOOP_MAX :: nat where
  "SYMLOOP_MAX = 40"

function realpath_walk :: "links \<Rightarrow> nat \<Rightarrow> string list \<Rightarrow> string list \<Rightarrow> string list option" where
  "realpath_walk L fuel acc [] = Some acc"
| "realpath_walk L fuel acc (c # cs) =
     (if c = [] \<or> c = ''.'' then realpath_walk L fuel acc cs
      else if c = ''..'' then realpath_walk L fuel (butlast acc) cs
      else (case map_of L (acc @ [c]) of
              None \<Rightarrow> realpath_walk L fuel (acc @ [c]) cs
            | Some target \<Rightarrow>
                (case fuel of
                   0 \<Rightarrow> None
                 | Suc f \<Rightarrow>
                     realpath_walk L f (if startswith target ''/'' then [] else acc)
                       (split_on CHR ''/'' target @ cs))))"
  by pat_completeness auto
termination
  by (relation "measures [\<lambda>(L, fuel, acc, cs). fuel, \<lambda>(L, fuel, acc, cs). length cs]") auto

definition path_str :: "string list \<Rightarrow> string" where
  "path_str comps = CHR ''/'' # join_with ''/'' comps"

definition resolve :: "links \<Rightarrow> string \<Rightarrow> error + string" where
  "resolve L p =
     (if CHR 0x00 \<in> set p then Inl (ValueError ''embedded null byte'')
      else (case realpath_walk L SYMLOOP_MAX [] (split_on CHR ''/'' p) of
              None \<Rightarrow> Inl RuntimeError
            | Some comps \<Rightarrow> Inr (path_str comps)))"

text \<open>\<open>base / user_path\<close> of pathlib, for an absolute \<open>base\<close>.\<close>

definition pathlib_join :: "string \<Rightarrow> string \<Rightarrow> string" where
  "pathlib_join base p = (if startswith p ''/'' then p else base @ ''/'' @ p)"

text \<open>
  \<open>config.BASE_DIR\<close> is \<open>os.path.join(EXECUTABLE_DIR, "homedrive_storage")\<close>; the
  directory of the executable is a parameter \<open>ed\<close> of every operation.
\<close>

definition BASE_DIR :: "string \<Rightarrow> string" where
  "BASE_DIR ed = os_path_join ed ''homedrive_storage''"

text \<open>
  \<open>is_safe_path\<close>: both paths are resolved, and the test is a string prefix test.
  \<open>ValueError\<close> and \<open>OSError\<close> are caught and give \<open>False\<close>; any other exception
  propagates.
\<close>

definition is_safe_path :: "links \<Rightarrow> string \<Rightarrow> string \<Rightarrow> error + bool" where
  "is_safe_path L ed user_path =
     (let caught = (\<lambda>e. case e of
                          ValueError m \<Rightarrow> Inr False
                        | OSError \<Rightarrow> Inr False
                        | PermissionError \<Rightarrow> Inr False
                        | _ \<Rightarrow> Inl e)
      in case resolve L (BASE_DIR ed) of
           Inl e \<Rightarrow> caught e
         | Inr base \<Rightarrow>
             (case (if user_path \<noteq> [] then resolve L (pathlib_join base user_path)
                    else Inr base) of
                Inl e \<Rightarrow> caught e
              | Inr target \<Rightarrow> Inr (startswith target base)))"

definition get_full_path :: "links \<Rightarrow> string \<Rightarrow> string \<Rightarrow> error + string" where
  "get_full_path L ed user_path =
     (case is_safe_path L ed user_path of
        Inl e \<Rightarrow> Inl e
      | Inr safe \<Rightarrow>
          if \<not> safe then Inl (ValueError ''Invalid path'')
          else Inr (if user_path \<noteq> [] then os_path_join (BASE_DIR ed) user_path
                    else BASE_DIR ed))"

section \<open>The file system\<close>

text \<open>
  The store's tree holds directories and regular files only (no operation of the store
  creates a symbolic link). It is an association list from the resolved location of an
  entry (its components below \<open>/\<close>) to the entry, in creation order; the root \<open>/\<close> is
  always a directory. \<open>undeletable\<close> lists the locations whose removal the operating
  system denies, and \<open>disk_free\<close> is the free space of the partition in bytes.
\<close>

datatype node = Dir | File bytes

type_synonym tree = "(string list \<times> node) list"

text \<open>
  The trash manifest is the one file the code reads with \<open>json.load\<close>. Its state is what
  \<open>os.path.exists\<close>, \<open>open\<close> and \<open>json.load\<close> make of it: missing, present but not
  openable, present with text that is not JSON, or present with a JSON value. A JSON value
  is of the manifest's shape \<open>{"items": [...]}\<close>, an object without the key \<open>items\<close>, or
  not an object (a list, a string, a number, \<open>true\<close>, \<open>false\<close> or \<open>null\<close>).
\<close>

record trash_item =
  trash_name :: string
  original_path :: string
  original_name :: string
  deletion_time :: int
  is_folder :: bool
  item_size :: nat

datatype json_doc = Manifest "trash_item list" | ObjectWithoutItems | NotAnObject

datatype manifest_state = Missing | Unreadable | Malformed | Parsed json_doc

record fs =
  nodes :: tree
  undeletable :: "string list list"
  disk_free :: nat
  manifest_file :: manifest_state

definition lookup :: "tree \<Rightarrow> string list \<Rightarrow> node option" where
  "lookup t k = (if k = [] then Some Dir else map_of t k)"

definition is_under :: "string list \<Rightarrow> string list \<Rightarrow> bool" where
  "is_under k k' = (take (length k) k' = k)"

text \<open>
  Path lookup of the operating system: every component but the last must name an existing
  directory; \<open>.\<close> and empty components stay, \<open>..\<close> goes to the parent. The result is the
  location the path names, whether or not something exists there.
\<close>

fun namei :: "tree \<Rightarrow> string list \<Rightarrow> string list \<Rightarrow> string list option" where
  "namei t cur [] = Some cur"
| "namei t cur (c # cs) =
     (if lookup t cur = Some Dir then
        (if c = [] \<or> c = ''.'' then namei t cur cs
         else if c = ''..'' then namei t (butlast cur) cs
         else namei t (cur @ [c]) cs)
      else None)"

definition locate :: "fs \<Rightarrow> string \<Rightarrow> string list option" where
  "locate s p = (if p = [] then None else namei (nodes s) [] (split_on CHR ''/'' p))"

definition stat :: "fs \<Rightarrow> string \<Rightarrow> node option" where
  "stat s p = (case locate s p of None \<Rightarrow> None | Some k \<Rightarrow> lookup (nodes s) k)"

definition os_path_exists :: "fs \<Rightarrow> string \<Rightarrow> bool" where
  "os_path_exists s p = (stat s p \<noteq> None)"

definition os_path_isdir :: "fs \<Rightarrow> string \<Rightarrow> bool" where
  "os_path_isdir s p = (stat s p = Some Dir)"

definition os_path_getsize :: "fs \<Rightarrow> string \<Rightarrow> error + nat" where
  "os_path_getsize s p =
     (case stat s p of
        None \<Rightarrow> Inl OSError
      | Some Dir \<Rightarrow> Inr 4096
      | Some (File c) \<Rightarrow> Inr (length c))"

definition file_bytes :: "node \<Rightarrow> nat" where
  "file_bytes n = (case n of Dir \<Rightarrow> 0 | File c \<Rightarrow> length c)"

definition subtree :: "tree \<Rightarrow> string list \<Rightarrow> tree" where
  "subtree t k = filter (\<lambda>e. is_under k (fst e)) t"

definition subtree_bytes :: "tree \<Rightarrow> string list \<Rightarrow> nat" where
  "subtree_bytes t k = sum_list (map (\<lambda>e. file_bytes (snd e)) (subtree t k))"

text \<open>
  \<open>os.makedirs\<close>: walks the components and creates each missing directory; a regular file
  in the way is an error.
\<close>

fun mkdirs :: "tree \<Rightarrow> string list \<Rightarrow> string list \<Rightarrow> tree \<times> string list option" where
  "mkdirs t cur [] = (t, Some cur)"
| "mkdirs t cur (c # cs) =
     (if c = [] \<or> c = ''.'' then mkdirs t cur cs
      else if c = ''..'' then mkdirs t (butlast cur) cs
      else (case lookup t (cur @ [c]) of
              None \<Rightarrow> mkdirs (t @ [(cur @ [c], Dir)]) (cur @ [c]) cs
            | Some Dir \<Rightarrow> mkdirs t (cur @ [c]) cs
            | Some (File b) \<Rightarrow> (t, None)))"

definition os_makedirs :: "fs \<Rightarrow> string \<Rightarrow> bool \<Rightarrow> error option \<times> fs" where
  "os_makedirs s p exist_ok =
     (if p = [] then (Some OSError, s)
      else if os_path_exists s p \<and> \<not> (exist_ok \<and> os_path_isdir s p) then (Some OSError, s)
      else (case mkdirs (nodes s) [] (split_on CHR ''/'' p) of
              (t, None) \<Rightarrow> (Some OSError, s\<lparr>nodes := t\<rparr>)
            | (t, Some k) \<Rightarrow> (None, s\<lparr>nodes := t\<rparr>)))"

text \<open>
  \<open>open(p, 'wb')\<close> creates or truncates a regular file and gives its location as the file
  handle; \<open>f.write(chunk)\<close> appends, and fails when the partition is full.
\<close>

definition open_wb :: "fs \<Rightarrow> string \<Rightarrow> error + (string list \<times> fs)" where
  "open_wb s p =
     (case locate s p of
        None \<Rightarrow> Inl OSError
      | Some k \<Rightarrow>
          (case lookup (nodes s) k of
             Some Dir \<Rightarrow> Inl OSError
           | Some (File c) \<Rightarrow>
               Inr (k, s\<lparr>nodes := AList.update k (File []) (nodes s),
                          disk_free := disk_free s + length c\<rparr>)
           | None \<Rightarrow> Inr (k, s\<lparr>nodes := AList.update k (File []) (nodes s)\<rparr>)))"

definition file_write :: "fs \<Rightarrow> string list \<Rightarrow> bytes \<Rightarrow> error + fs" where
  "file_write s k chunk =
     (if disk_free s < length chunk then Inl OSError
      else (case lookup (nodes s) k of
              Some (File c) \<Rightarrow>
                Inr (s\<lparr>nodes := AList.update k (File (c @ chunk)) (nodes s),
                       disk_free := disk_free s - length chunk\<rparr>)
            | _ \<Rightarrow> Inl OSError))"

text \<open>\<open>os.remove\<close>; a denied removal removes nothing.\<close>

definition os_remove :: "fs \<Rightarrow> string \<Rightarrow> error + fs" where
  "os_remove s p =
     (case locate s p of
        None \<Rightarrow> Inl OSError
      | Some k \<Rightarrow>
          (case lookup (nodes s) k of
             None \<Rightarrow> Inl OSError
           | Some Dir \<Rightarrow> Inl OSError
           | Some (File c) \<Rightarrow>
               if k \<in> set (undeletable s) then Inl PermissionError
               else Inr (s\<lparr>nodes := AList.delete k (nodes s),
                           disk_free := disk_free s + length c\<rparr>)))"

text \<open>
  \<open>os.scandir\<close>: the entries directly in the directory at \<open>k\<close>, in the order in which
  the operating system lists them, which is their order in the tree.
\<close>

definition listdir :: "tree \<Rightarrow> string list \<Rightarrow> string list list" where
  "listdir t k = remdups (map fst (filter (\<lambda>e. fst e \<noteq> [] \<and> butlast (fst e) = k) t))"

text \<open>
  \<open>shutil.rmtree(path)\<close> without an error handler lists the directory, removes its
  entries one after the other (a subdirectory by a recursive call, anything else with
  \<open>os.unlink\<close>) and removes the directory itself last. The first removal that the
  operating system denies raises, and what was removed until then stays removed.
  \<open>rm_order\<close> is the order in which a call for the directory at \<open>k\<close> comes to remove
  the entries; \<open>rm_seq\<close> removes along such an order.
\<close>

function rm_order :: "tree \<Rightarrow> string list \<Rightarrow> string list list" where
  "rm_order t k =
     concat (map (\<lambda>c. if lookup t c = Some Dir then rm_order t c else [c]) (listdir t k)) @ [k]"
  by pat_completeness auto
termination
proof (relation "measure (\<lambda>(t, k). length (filter (\<lambda>e. is_under k (fst e) \<and> fst e \<noteq> k) t))")
  show "wf (measure (\<lambda>(t, k). length (filter (\<lambda>e. is_under k (fst e) \<and> fst e \<noteq> k) t)))"
    by simp
next
  fix t :: tree and k c :: "string list"
  assume "c \<in> set (listdir t k)"
  then obtain n where n: "(c, n) \<in> set t" and b: "butlast c = k" "c \<noteq> []"
    by (auto simp: listdir_def)
  from b obtain x where ck: "c = k @ [x]" by (metis append_butlast_last_id)
  let ?P = "\<lambda>e :: string list \<times> node. is_under c (fst e) \<and> fst e \<noteq> c"
  let ?Q = "\<lambda>e :: string list \<times> node. is_under k (fst e) \<and> fst e \<noteq> k"
  have pq: "?Q y" if "?P y" for y
  proof -
    from that have u: "take (Suc (length k)) (fst y) = k @ [x]" by (simp add: is_under_def ck)
    then have "take (length k) (take (Suc (length k)) (fst y)) = take (length k) (k @ [x])"
      by simp
    then have "take (length k) (fst y) = k" by (simp add: min_def)
    moreover have "fst y \<noteq> k"
    proof
      assume "fst y = k"
      with u have "length (take (Suc (length k)) k) = length (k @ [x])" by simp
      then show False by simp
    qed
    ultimately show ?thesis by (simp add: is_under_def)
  qed
  then have "filter ?P t = filter ?P (filter ?Q t)"
    by (induction t) auto
  moreover have "(c, n) \<in> set (filter ?Q t)" using n by (simp add: ck is_under_def)
  moreover have "\<not> ?P (c, n)" by simp
  ultimately have "length (filter ?P t) < length (filter ?Q t)"
    using length_filter_less [of "(c, n)" "filter ?Q t" ?P] by simp
  then show "((t, c), (t, k)) \<in>
      measure (\<lambda>(t, k). length (filter (\<lambda>e. is_under k (fst e) \<and> fst e \<noteq> k) t))"
    by simp
qed

declare rm_order.simps [simp del]

fun rm_seq :: "fs \<Rightarrow> string list list \<Rightarrow> error option \<times> fs" where
  "rm_seq s [] = (None, s)"
| "rm_seq s (q # qs) =
     (if q \<in> set (undeletable s) then (Some PermissionError, s)
      else rm_seq (s\<lparr>nodes := AList.delete q (nodes s),
                      disk_free := disk_free s +
                        (case lookup (nodes s) q of None \<Rightarrow> 0 | Some n \<Rightarrow> file_bytes n)\<rparr>) qs)"

definition shutil_rmtree :: "fs \<Rightarrow> string \<Rightarrow> error option \<times> fs" where
  "shutil_rmtree s p =
     (case locate s p of
        None \<Rightarrow> (Some OSError, s)
      | Some k \<Rightarrow>
          (case lookup (nodes s) k of
             None \<Rightarrow> (Some OSError, s)
           | Some (File c) \<Rightarrow> (Some OSError, s)
           | Some Dir \<Rightarrow>
               if k = [] then (Some OSError, s) else rm_seq s (rm_order (nodes s) k)))"

text \<open>
  \<open>os.replace\<close> / \<open>os.rename\<close>: a regular file replaces a regular file or takes a free
  name; a directory takes a free name (or an empty directory's) and carries its subtree
  along; a directory cannot move below itself. A rename takes the entry away from its
  place, and removes the entry it replaces: it is denied where a removal is.
\<close>

definition rekey :: "string list \<Rightarrow> string list \<Rightarrow> string list \<times> node \<Rightarrow> string list \<times> node" where
  "rekey ks kd e = (if is_under ks (fst e) then (kd @ drop (length ks) (fst e), snd e) else e)"

definition os_replace :: "fs \<Rightarrow> string \<Rightarrow> string \<Rightarrow> error + fs" where
  "os_replace s src dst =
     (case (locate s src, locate s dst) of
        (Some ks, Some kd) \<Rightarrow>
          (case lookup (nodes s) ks of
             None \<Rightarrow> Inl OSError
           | Some (File c) \<Rightarrow>
               (case lookup (nodes s) kd of
                  Some Dir \<Rightarrow> Inl OSError
                | Some (File c') \<Rightarrow>
                    if ks = kd then Inr s
                    else if ks \<in> set (undeletable s) \<or> kd \<in> set (undeletable s)
                    then Inl PermissionError
                    else Inr (s\<lparr>nodes := AList.update kd (File c) (AList.delete ks (nodes s)),
                                disk_free := disk_free s + length c'\<rparr>)
                | None \<Rightarrow>
                    if ks \<in> set (undeletable s) then Inl PermissionError
                    else Inr (s\<lparr>nodes := AList.update kd (File c) (AList.delete ks (nodes s))\<rparr>))
           | Some Dir \<Rightarrow>
               if ks = [] \<or> kd = [] then Inl OSError
               else if ks = kd then Inr s
               else if is_under ks kd then Inl OSError
               else (case lookup (nodes s) kd of
                       Some (File c') \<Rightarrow> Inl OSError
                     | Some Dir \<Rightarrow>
                         if length (subtree (nodes s) kd) \<le> 1
                         then (if ks \<in> set (undeletable s) \<or> kd \<in> set (undeletable s)
                               then Inl PermissionError
                               else Inr (s\<lparr>nodes := map (rekey ks kd)
                                                      (AList.delete kd (nodes s))\<rparr>))
                         else Inl OSError
                     | None \<Rightarrow>
                         if ks \<in> set (undeletable s) then Inl PermissionError
                         else Inr (s\<lparr>nodes := map (rekey ks kd) (nodes s)\<rparr>)))
      | _ \<Rightarrow> Inl OSError)"

text \<open>\<open>shutil.copy2(src, dst)\<close> of a regular file.\<close>

definition shutil_copy2 :: "fs \<Rightarrow> string \<Rightarrow> string \<Rightarrow> error + fs" where
  "shutil_copy2 s src dst =
     (case stat s src of
        Some (File c) \<Rightarrow>
          (case open_wb s (if os_path_isdir s dst
                           then os_path_join dst (os_path_basename src) else dst) of
             Inl e \<Rightarrow> Inl e
           | Inr (k, s1) \<Rightarrow> file_write s1 k c)
      | _ \<Rightarrow> Inl OSError)"

text \<open>
  \<open>shutil.copytree(src, dst, symlinks=True)\<close>: \<open>dst\<close> is made with \<open>os.makedirs\<close>, every
  directory below \<open>src\<close> is made below \<open>dst\<close> and every regular file is copied; a file that
  does not fit on the disk is left out, and the error is raised when the walk is over.
\<close>

fun copy_entries ::
    "fs \<Rightarrow> string list \<Rightarrow> string list \<Rightarrow> (string list \<times> node) list \<Rightarrow> bool \<times> fs" where
  "copy_entries s ks kd [] = (True, s)"
| "copy_entries s ks kd (e # es) =
     (case snd e of
        Dir \<Rightarrow>
          copy_entries (s\<lparr>nodes := AList.update (kd @ drop (length ks) (fst e)) Dir (nodes s)\<rparr>)
            ks kd es
      | File c \<Rightarrow>
          if disk_free s < length c then (False, snd (copy_entries s ks kd es))
          else copy_entries
                 (s\<lparr>nodes := AList.update (kd @ drop (length ks) (fst e)) (File c) (nodes s),
                    disk_free := disk_free s - length c\<rparr>) ks kd es)"

definition shutil_copytree :: "fs \<Rightarrow> string \<Rightarrow> string \<Rightarrow> error option \<times> fs" where
  "shutil_copytree s src dst =
     (case locate s src of
        None \<Rightarrow> (Some OSError, s)
      | Some ks \<Rightarrow>
          if lookup (nodes s) ks \<noteq> Some Dir then (Some OSError, s)
          else (case os_makedirs s dst False of
                  (Some e, s1) \<Rightarrow> (Some e, s1)
                | (None, s1) \<Rightarrow>
                    (case locate s1 dst of
                       None \<Rightarrow> (Some OSError, s1)
                     | Some kd \<Rightarrow>
                         (case copy_entries s1 ks kd
                                 (filter (\<lambda>e. fst e \<noteq> ks) (subtree (nodes s) ks)) of
                            (True, s2) \<Rightarrow> (None, s2)
                          | (False, s2) \<Rightarrow> (Some ShutilError, s2)))))"

text \<open>
  \<open>shutil.move(src, dst)\<close>: when \<open>dst\<close> is an existing directory the source is moved
  into it under its own base name (trailing slashes of \<open>src\<close> removed), and an entry of
  that name already there is an error; otherwise \<open>src\<close> is renamed to \<open>dst\<close>. When
  \<open>os.rename\<close> raises, a directory is copied with \<open>copytree\<close> and removed with
  \<open>rmtree\<close> (unless the destination lies inside it), and a regular file is copied with
  \<open>copy2\<close> and removed with \<open>os.unlink\<close>.
\<close>

definition rstrip_sep :: "string \<Rightarrow> string" where
  "rstrip_sep p = rev (dropWhile (\<lambda>c. c = CHR ''/'') (rev p))"

definition rename_or_copy :: "fs \<Rightarrow> string \<Rightarrow> string \<Rightarrow> error option \<times> fs" where
  "rename_or_copy s src real_dst =
     (case os_replace s src real_dst of
        Inr s' \<Rightarrow> (None, s')
      | Inl e \<Rightarrow>
          if os_path_isdir s src then
            (case (locate s src, locate s real_dst) of
               (Some ks, Some kd) \<Rightarrow>
                 if is_under ks kd then (Some ShutilError, s)
                 else (case shutil_copytree s src real_dst of
                         (Some e', s1) \<Rightarrow> (Some e', s1)
                       | (None, s1) \<Rightarrow> shutil_rmtree s1 src)
             | _ \<Rightarrow> (Some OSError, s))
          else (case shutil_copy2 s src real_dst of
                  Inl e' \<Rightarrow> (Some e', s)
                | Inr s1 \<Rightarrow>
                    (case os_remove s1 src of
                       Inl e' \<Rightarrow> (Some e', s1)
                     | Inr s2 \<Rightarrow> (None, s2))))"

definition shutil_move :: "fs \<Rightarrow> string \<Rightarrow> string \<Rightarrow> error option \<times> fs" where
  "shutil_move s src dst =
     (if os_path_isdir s dst then
        (let real_dst = os_path_join dst (os_path_basename (rstrip_sep src))
         in if os_path_exists s real_dst then (Some ShutilError, s)
            else rename_or_copy s src real_dst)
      else rename_or_copy s src dst)"

text \<open>
  \<open>os.walk(top)\<close>: one row per directory below \<open>top\<close> (\<open>top\<close> first), with the directory's
  path and the names of the regular files directly in it.
\<close>

definition files_in :: "tree \<Rightarrow> string list \<Rightarrow> string list" where
  "files_in t d =
     map (\<lambda>e. last (fst e))
       (filter (\<lambda>e. fst e \<noteq> [] \<and> butlast (fst e) = d \<and> snd e \<noteq> Dir) t)"

definition os_walk :: "fs \<Rightarrow> string \<Rightarrow> (string \<times> string list) list" where
  "os_walk s topdir =
     (case locate s topdir of
        None \<Rightarrow> []
      | Some k \<Rightarrow>
          if lookup (nodes s) k = Some Dir then
            (topdir, files_in (nodes s) k) #
            map (\<lambda>e. (os_path_join topdir (join_with ''/'' (drop (length k) (fst e))),
                       files_in (nodes s) (fst e)))
              (filter (\<lambda>e. is_under k (fst e) \<and> fst e \<noteq> k \<and> snd e = Dir) (nodes s))
          else [])"

section \<open>Names\<close>

text \<open>
  \<open>werkzeug.utils.secure_filename\<close>: the name is normalised to NFKD and encoded to ASCII
  with \<open>"ignore"\<close>, a slash becomes a space, runs of whitespace become one underscore,
  every character outside \<open>[A-Za-z0-9_.-]\<close> is dropped, and leading and trailing dots
  and underscores are stripped. A character of a name is a code point below 256;
  \<open>latin1_nfkd\<close> lists the ASCII characters that remain of the compatibility
  decomposition of the code points from 128 on (those that leave none are not listed).
\<close>

definition latin1_nfkd :: "(char \<times> string) list" where
  "latin1_nfkd =
    [(CHR 0xA0, '' ''), (CHR 0xA8, '' ''), (CHR 0xAA, ''a''), (CHR 0xAF, '' ''),
     (CHR 0xB2, ''2''), (CHR 0xB3, ''3''), (CHR 0xB4, '' ''), (CHR 0xB8, '' ''),
     (CHR 0xB9, ''1''), (CHR 0xBA, ''o''), (CHR 0xBC, ''14''), (CHR 0xBD, ''12''),
     (CHR 0xBE, ''34''), (CHR 0xC0, ''A''), (CHR 0xC1, ''A''), (CHR 0xC2, ''A''),
     (CHR 0xC3, ''A''), (CHR 0xC4, ''A''), (CHR 0xC5, ''A''), (CHR 0xC7, ''C''),
     (CHR 0xC8, ''E''), (CHR 0xC9, ''E''), (CHR 0xCA, ''E''), (CHR 0xCB, ''E''),
     (CHR 0xCC, ''I''), (CHR 0xCD, ''I''), (CHR 0xCE, ''I''), (CHR 0xCF, ''I''),
     (CHR 0xD1, ''N''), (CHR 0xD2, ''O''), (CHR 0xD3, ''O''), (CHR 0xD4, ''O''),
     (CHR 0xD5, ''O''), (CHR 0xD6, ''O''), (CHR 0xD9, ''U''), (CHR 0xDA, ''U''),
     (CHR 0xDB, ''U''), (CHR 0xDC, ''U''), (CHR 0xDD, ''Y''), (CHR 0xE0, ''a''),
     (CHR 0xE1, ''a''), (CHR 0xE2, ''a''), (CHR 0xE3, ''a''), (CHR 0xE4, ''a''),
     (CHR 0xE5, ''a''), (CHR 0xE7, ''c''), (CHR 0xE8, ''e''), (CHR 0xE9, ''e''),
     (CHR 0xEA, ''e''), (CHR 0xEB, ''e''), (CHR 0xEC, ''i''), (CHR 0xED, ''i''),
     (CHR 0xEE, ''i''), (CHR 0xEF, ''i''), (CHR 0xF1, ''n''), (CHR 0xF2, ''o''),
     (CHR 0xF3, ''o''), (CHR 0xF4, ''o''), (CHR 0xF5, ''o''), (CHR 0xF6, ''o''),
     (CHR 0xF9, ''u''), (CHR 0xFA, ''u''), (CHR 0xFB, ''u''), (CHR 0xFC, ''u''),
     (CHR 0xFD, ''y''), (CHR 0xFF, ''y'')]"

definition ascii_fold :: "char \<Rightarrow> string" where
  "ascii_fold c =
     (if digit7 c then (case map_of latin1_nfkd c of None \<Rightarrow> [] | Some w \<Rightarrow> w) else [c])"

definition is_space :: "char \<Rightarrow> bool" where
  "is_space c =
     (c \<in> set [CHR 0x09, CHR 0x0A, CHR 0x0B, CHR 0x0C, CHR 0x0D,
                CHR 0x1C, CHR 0x1D, CHR 0x1E, CHR 0x1F, CHR 0x20])"

definition filename_char :: "char \<Rightarrow> bool" where
  "filename_char c =
     (c \<in> set ''ABCDEFGHIJKLMNOPQRSTUVWXYZabcdefghijklmnopqrstuvwxyz0123456789_.-'')"

function split_ws :: "string \<Rightarrow> string list" where
  "split_ws [] = []"
| "split_ws (x # xs) =
     (if is_space x then split_ws xs
      else (x # takeWhile (\<lambda>c. \<not> is_space c) xs)
           # split_ws (dropWhile (\<lambda>c. \<not> is_space c) xs))"
  by pat_completeness auto
termination
  by (relation "measure length") (auto simp: less_Suc_eq_le length_dropWhile_le)

definition strip_chars :: "string \<Rightarrow> string \<Rightarrow> string" where
  "strip_chars cs s =
     rev (dropWhile (\<lambda>c. c \<in> set cs) (rev (dropWhile (\<lambda>c. c \<in> set cs) s)))"

definition secure_filename :: "string \<Rightarrow> string" where
  "secure_filename name =
     strip_chars ''._''
       (filter filename_char
          (join_with ''_''
             (split_ws (map (\<lambda>c. if c = CHR ''/'' then CHR '' '' else c)
                          (concat (map ascii_fold name))))))"

text \<open>\<open>str(n)\<close> of a natural number.\<close>

definition digit_char :: "nat \<Rightarrow> char" where
  "digit_char d = ''0123456789'' ! d"

function str_nat :: "nat \<Rightarrow> string" where
  "str_nat n = (if n < 10 then [digit_char n] else str_nat (n div 10) @ [digit_char (n mod 10)])"
  by pat_completeness auto
termination
  by (relation "measure (\<lambda>n. n)") auto

declare str_nat.simps [simp del]

section \<open>Constants of file_ops.py and maintenance.py\<close>

definition MAX_FILENAME_LENGTH :: nat where
  "MAX_FILENAME_LENGTH = 255"

definition CHUNK_SIZE :: nat where
  "CHUNK_SIZE = 64 * 1024"

definition MIN_FREE_SPACE :: nat where
  "MIN_FREE_SPACE = 100 * 1024 * 1024"

definition TRASH_DIR :: "string \<Rightarrow> string" where
  "TRASH_DIR ed = os_path_join (BASE_DIR ed) ''.trash''"

definition TRASH_MAX_AGE_DAYS :: int where
  "TRASH_MAX_AGE_DAYS = 30"

definition LARGE_FILE_THRESHOLD :: nat where
  "LARGE_FILE_THRESHOLD = 100 * 1024 * 1024"

definition PARTIAL_HASH_SIZE :: nat where
  "PARTIAL_HASH_SIZE = 1 * 1024 * 1024"

definition HASH_CHUNK_SIZE :: nat where
  "HASH_CHUNK_SIZE = 64 * 1024"

section \<open>AtomicFileStore\<close>

text \<open>
  The store's own paths hold no symbolic link, so \<open>get_full_path\<close> is used with the
  empty link table.
\<close>

definition full_path_of :: "string \<Rightarrow> string \<Rightarrow> error + string" where
  "full_path_of ed user_path = get_full_path [] ed user_path"

text \<open>\<open>get_disk_usage()['free']\<close> is the free space of the partition.\<close>

definition has_space_for_upload :: "fs \<Rightarrow> nat \<Rightarrow> bool" where
  "has_space_for_upload s file_size =
     (let required_free = file_size + MIN_FREE_SPACE in disk_free s \<ge> required_free)"

definition create_folder :: "fs \<Rightarrow> string \<Rightarrow> string \<Rightarrow> string \<Rightarrow> (error + string) \<times> fs" where
  "create_folder s ed user_path folder_name0 =
     (let folder_name = secure_filename folder_name0 in
      if folder_name = [] then (Inl (ValueError ''Invalid folder name''), s)
      else if length folder_name > MAX_FILENAME_LENGTH
      then (Inl (ValueError ''Folder name too long''), s)
      else
        (let new_path = (if user_path \<noteq> [] then os_path_join user_path folder_name
                         else folder_name)
         in case full_path_of ed new_path of
              Inl e \<Rightarrow> (Inl e, s)
            | Inr full_path \<Rightarrow>
                if os_path_exists s full_path
                then (Inl (ValueError ''Folder already exists''), s)
                else (case os_makedirs s full_path False of
                        (Some e, s') \<Rightarrow> (Inl (ValueError ''Cannot create folder''), s')
                      | (None, s') \<Rightarrow> (Inr new_path, s'))))"

text \<open>
  An upload is a file name and a byte stream. Each \<open>file.stream.read(CHUNK_SIZE)\<close> either
  yields the next chunk or raises; after the last element the stream is at its end and
  \<open>read\<close> returns the empty chunk.
\<close>

datatype read_result = Chunk bytes | ReadFails

record upload =
  filename :: string
  stream :: "read_result list"

text \<open>
  The loop \<open>while os.path.exists(full_path)\<close> that looks for a free name; \<open>cur\<close> is
  the pair \<open>(dest_path, full_path)\<close> and \<open>counter\<close> the next suffix.
\<close>

partial_function (option) free_upload_name ::
    "fs \<Rightarrow> string \<Rightarrow> string \<Rightarrow> string \<Rightarrow> string \<Rightarrow> nat \<Rightarrow> string \<times> string
       \<Rightarrow> (error + string \<times> string) option" where
  "free_upload_name s ed user_path base_name ext counter cur =
     (if os_path_exists s (snd cur) then
        (let filename = base_name @ ''_'' @ str_nat counter @ ext;
             dest_path = (if user_path \<noteq> [] then os_path_join user_path filename
                          else filename)
         in case full_path_of ed dest_path of
              Inl e \<Rightarrow> Some (Inl e)
            | Inr full_path \<Rightarrow>
                free_upload_name s ed user_path base_name ext (counter + 1)
                  (dest_path, full_path))
      else Some (Inr cur))"

text \<open>
  The body of \<open>with open(temp_path, 'wb') as f\<close>: the result is the exception raised, if
  any, and the file system at that moment.
\<close>

fun write_stream :: "fs \<Rightarrow> string list \<Rightarrow> read_result list \<Rightarrow> error option \<times> fs" where
  "write_stream s k [] = (None, s)"
| "write_stream s k (ReadFails # rest) = (Some OSError, s)"
| "write_stream s k (Chunk c # rest) =
     (if c = [] then (None, s)
      else (case file_write s k c of
              Inl e \<Rightarrow> (Some e, s)
            | Inr s' \<Rightarrow> write_stream s' k rest))"

text \<open>The \<open>try\<close> block: write to the temporary sibling, then rename.\<close>

definition write_then_rename ::
    "fs \<Rightarrow> string \<Rightarrow> string \<Rightarrow> read_result list \<Rightarrow> error option \<times> fs" where
  "write_then_rename s temp_path full_path st =
     (case open_wb s temp_path of
        Inl e \<Rightarrow> (Some e, s)
      | Inr (k, s1) \<Rightarrow>
          (case write_stream s1 k st of
             (Some e, s2) \<Rightarrow> (Some e, s2)
           | (None, s2) \<Rightarrow>
               (case os_replace s2 temp_path full_path of
                  Inl e \<Rightarrow> (Some e, s2)
                | Inr s3 \<Rightarrow> (None, s3))))"

text \<open>The handler: remove the temporary file if it is there, ignoring a failure to.\<close>

definition discard_temp :: "fs \<Rightarrow> string \<Rightarrow> fs" where
  "discard_temp s temp_path =
     (if os_path_exists s temp_path
      then (case os_remove s temp_path of Inl e \<Rightarrow> s | Inr s' \<Rightarrow> s')
      else s)"

definition write_and_commit ::
    "fs \<Rightarrow> string \<Rightarrow> string \<Rightarrow> read_result list \<Rightarrow> (error + string) \<times> fs" where
  "write_and_commit s dest_path full_path st =
     (let temp_path = full_path @ ''.tmp''
      in case write_then_rename s temp_path full_path st of
           (None, s') \<Rightarrow> (Inr dest_path, s')
         | (Some e, s') \<Rightarrow>
             (Inl (ValueError ''Cannot save file''), discard_temp s' temp_path))"

text \<open>
  The first part of \<open>save_uploaded_file\<close>: the sanitised file name and the upload folder.
  \<open>relative_path\<close> is \<open>None\<close> for a plain upload.
\<close>

definition upload_name :: "upload \<Rightarrow> string \<Rightarrow> string option \<Rightarrow> error + string \<times> string" where
  "upload_name file user_path relative_path =
     (if filename file = [] then Inl (ValueError ''No file provided'')
      else
        (let rel = (case relative_path of None \<Rightarrow> [] | Some r \<Rightarrow> r)
         in if rel \<noteq> [] then
              (let file_dir = os_path_dirname rel;
                   fname = secure_filename (os_path_basename rel)
               in if fname = [] then Inl (ValueError ''Invalid filename'')
                  else Inr (fname,
                            if file_dir \<noteq> []
                            then (if user_path \<noteq> [] then os_path_join user_path file_dir
                                  else file_dir)
                            else user_path))
            else
              (let fname = secure_filename (filename file)
               in if fname = [] then Inl (ValueError ''Invalid filename'')
                  else Inr (fname, user_path))))"

text \<open>
  \<open>save_uploaded_file\<close> up to the \<open>try\<close> block: the result is the pair
  \<open>(dest_path, full_path)\<close> that the loop has found free, and the file system after the
  parent directories were made.
\<close>

definition prepare_upload ::
    "fs \<Rightarrow> string \<Rightarrow> upload \<Rightarrow> string \<Rightarrow> string option
       \<Rightarrow> ((error + string \<times> string) \<times> fs) option" where
  "prepare_upload s ed file user_path relative_path =
     (case upload_name file user_path relative_path of
        Inl e \<Rightarrow> Some (Inl e, s)
      | Inr (fname, upload_path) \<Rightarrow>
          if length fname > MAX_FILENAME_LENGTH
          then Some (Inl (ValueError ''Filename too long''), s)
          else
            (let dest_path = (if upload_path \<noteq> [] then os_path_join upload_path fname
                              else fname)
             in case full_path_of ed dest_path of
                  Inl e \<Rightarrow> Some (Inl e, s)
                | Inr full_path \<Rightarrow>
                    (let parent_dir = os_path_dirname full_path;
                         made = (if parent_dir \<noteq> [] \<and> \<not> os_path_exists s parent_dir
                                 then os_makedirs s parent_dir True else (None, s))
                     in case made of
                          (Some e, s1) \<Rightarrow>
                            Some (Inl (ValueError ''Cannot create directory structure''), s1)
                        | (None, s1) \<Rightarrow>
                            (case free_upload_name s1 ed user_path
                                    (fst (os_path_splitext fname)) (snd (os_path_splitext fname))
                                    1 (dest_path, full_path) of
                               None \<Rightarrow> None
                             | Some (Inl e) \<Rightarrow> Some (Inl e, s1)
                             | Some (Inr found) \<Rightarrow> Some (Inr found, s1)))))"

definition save_uploaded_file ::
    "fs \<Rightarrow> string \<Rightarrow> upload \<Rightarrow> string \<Rightarrow> string option \<Rightarrow> ((error + string) \<times> fs) option" where
  "save_uploaded_file s ed file user_path relative_path =
     (case prepare_upload s ed file user_path relative_path of
        None \<Rightarrow> None
      | Some (Inl e, s1) \<Rightarrow> Some (Inl e, s1)
      | Some (Inr (dest_path, full_path), s1) \<Rightarrow>
          Some (write_and_commit s1 dest_path full_path (stream file)))"

section \<open>TrashManager\<close>

text \<open>
  \<open>os.path.exists(TRASH_MANIFEST)\<close>: the manifest lives in the trash directory.
\<close>

definition manifest_exists :: "fs \<Rightarrow> string \<Rightarrow> bool" where
  "manifest_exists s ed = (os_path_isdir s (TRASH_DIR ed) \<and> manifest_file s \<noteq> Missing)"

text \<open>The body of the \<open>try\<close> in \<open>load_trash_manifest\<close>: \<open>open\<close> and \<open>json.load\<close>.\<close>

definition read_manifest :: "fs \<Rightarrow> error + json_doc" where
  "read_manifest s =
     (case manifest_file s of
        Missing \<Rightarrow> Inl OSError
      | Unreadable \<Rightarrow> Inl PermissionError
      | Malformed \<Rightarrow> Inl (ValueError ''JSONDecodeError'')
      | Parsed d \<Rightarrow> Inr d)"

definition load_trash_manifest :: "fs \<Rightarrow> string \<Rightarrow> error + json_doc" where
  "load_trash_manifest s ed =
     (if \<not> manifest_exists s ed then Inr (Manifest [])
      else (case read_manifest s of
              Inl e \<Rightarrow> Inr (Manifest [])
            | Inr d \<Rightarrow> Inr d))"

text \<open>
  \<open>manifest["items"]\<close>: a \<open>KeyError\<close> on an object without the key, a \<open>TypeError\<close> on a value
  that is not an object.
\<close>

definition items_of :: "json_doc \<Rightarrow> error + trash_item list" where
  "items_of d =
     (case d of
        Manifest xs \<Rightarrow> Inr xs
      | ObjectWithoutItems \<Rightarrow> Inl KeyError
      | NotAnObject \<Rightarrow> Inl TypeError)"

definition save_trash_manifest :: "fs \<Rightarrow> string \<Rightarrow> json_doc \<Rightarrow> error option \<times> fs" where
  "save_trash_manifest s ed manifest =
     (case (if \<not> os_path_exists s (TRASH_DIR ed) then os_makedirs s (TRASH_DIR ed) False
            else (None, s)) of
        (Some e, s1) \<Rightarrow> (Some e, s1)
      | (None, s1) \<Rightarrow>
          if os_path_isdir s1 (TRASH_DIR ed)
          then (None, s1\<lparr>manifest_file := Parsed manifest\<rparr>)
          else (Some OSError, s1))"

definition get_dir_size :: "fs \<Rightarrow> string \<Rightarrow> nat" where
  "get_dir_size s p =
     (case locate s p of
        None \<Rightarrow> 0
      | Some k \<Rightarrow> if lookup (nodes s) k = Some Dir then subtree_bytes (nodes s) k else 0)"

text \<open>The loop \<open>while os.path.exists(trash_path)\<close>; \<open>cur\<close> is \<open>(trash_name, trash_path)\<close>.\<close>

partial_function (option) free_trash_name ::
    "fs \<Rightarrow> string \<Rightarrow> nat \<Rightarrow> string \<Rightarrow> nat \<Rightarrow> string \<times> string \<Rightarrow> (string \<times> string) option" where
  "free_trash_name s ed timestamp name counter cur =
     (if os_path_exists s (snd cur) then
        (let tname = ''item_'' @ str_nat timestamp @ ''_'' @ str_nat counter @ ''_'' @ name
         in free_trash_name s ed timestamp name (counter + 1)
              (tname, os_path_join (TRASH_DIR ed) tname))
      else Some cur)"

text \<open>The \<open>try\<close> block of \<open>move_to_trash\<close> and its handler.\<close>

definition trash_and_record ::
    "fs \<Rightarrow> string \<Rightarrow> nat \<Rightarrow> string \<Rightarrow> string \<Rightarrow> string \<Rightarrow> string \<Rightarrow> string
       \<Rightarrow> (error + string) \<times> fs" where
  "trash_and_record s ed timestamp user_path full_path name tname trash_path =
     (let attempt =
            (case shutil_move s full_path trash_path of
               (Some e, s1) \<Rightarrow> (Some e, s1)
             | (None, s1) \<Rightarrow>
                 (case load_trash_manifest s1 ed of
                    Inl e \<Rightarrow> (Some e, s1)
                  | Inr doc \<Rightarrow>
                      (case items_of doc of
                         Inl e \<Rightarrow> (Some e, s1)
                       | Inr items \<Rightarrow>
                           (case (if os_path_isdir s1 trash_path
                                  then Inr (get_dir_size s1 trash_path)
                                  else os_path_getsize s1 trash_path) of
                              Inl e \<Rightarrow> (Some e, s1)
                            | Inr sz \<Rightarrow>
                                save_trash_manifest s1 ed
                                  (Manifest (items @
                                     [\<lparr>trash_name = tname,
                                       original_path = user_path,
                                       original_name = name,
                                       deletion_time = int timestamp,
                                       is_folder = os_path_isdir s1 trash_path,
                                       item_size = sz\<rparr>]))))))
      in case attempt of
           (None, s') \<Rightarrow> (Inr tname, s')
         | (Some e, s') \<Rightarrow>
             (Inl (ValueError ''Cannot move to trash''),
              if os_path_exists s' trash_path \<and> \<not> os_path_exists s' full_path
              then snd (shutil_move s' trash_path full_path)
              else s'))"

text \<open>\<open>move_to_trash\<close>; \<open>now\<close> is the reading of \<open>int(time.time())\<close>.\<close>

definition move_to_trash ::
    "fs \<Rightarrow> string \<Rightarrow> nat \<Rightarrow> string \<Rightarrow> ((error + string) \<times> fs) option" where
  "move_to_trash s ed now user_path =
     (case full_path_of ed user_path of
        Inl e \<Rightarrow> Some (Inl e, s)
      | Inr full_path \<Rightarrow>
          if \<not> os_path_exists s full_path then Some (Inl (ValueError ''Item does not exist''), s)
          else
            (case (if \<not> os_path_exists s (TRASH_DIR ed)
                   then os_makedirs s (TRASH_DIR ed) False else (None, s)) of
               (Some e, s1) \<Rightarrow> Some (Inl e, s1)
             | (None, s1) \<Rightarrow>
                 (let name = os_path_basename full_path;
                      tname = ''item_'' @ str_nat now @ ''_'' @ name
                  in case free_trash_name s1 ed now name 1
                            (tname, os_path_join (TRASH_DIR ed) tname) of
                       None \<Rightarrow> None
                     | Some (tname', trash_path) \<Rightarrow>
                         Some (trash_and_record s1 ed now user_path full_path name
                                 tname' trash_path))))"

text \<open>
  \<open>os.path.relpath(path, start)\<close> for absolute arguments: both are normalised lexically,
  the common leading components are dropped and each remaining component of \<open>start\<close>
  becomes \<open>..\<close>.
\<close>

fun norm_comps :: "string list \<Rightarrow> string list \<Rightarrow> string list" where
  "norm_comps acc [] = acc"
| "norm_comps acc (c # cs) =
     (if c = [] \<or> c = ''.'' then norm_comps acc cs
      else if c = ''..'' then norm_comps (butlast acc) cs
      else norm_comps (acc @ [c]) cs)"

definition os_path_relpath :: "string \<Rightarrow> string \<Rightarrow> string" where
  "os_path_relpath p start =
     (let start_list = norm_comps [] (split_on CHR ''/'' start);
          path_list = norm_comps [] (split_on CHR ''/'' p);
          i = length (takeWhile (\<lambda>ab. fst ab = snd ab) (zip start_list path_list));
          rel_list = replicate (length start_list - i) ''..'' @ drop i path_list
      in if rel_list = [] then ''.'' else join_with ''/'' rel_list)"

text \<open>\<open>for i, trash_item in enumerate(manifest["items"])\<close>: the first entry of that name.\<close>

fun find_item :: "string \<Rightarrow> trash_item list \<Rightarrow> nat \<Rightarrow> (trash_item \<times> nat) option" where
  "find_item tname [] i = None"
| "find_item tname (x # xs) i =
     (if trash_name x = tname then Some (x, i) else find_item tname xs (Suc i))"

text \<open>\<open>manifest["items"].pop(item_index)\<close>.\<close>

definition pop_at :: "nat \<Rightarrow> 'a list \<Rightarrow> 'a list" where
  "pop_at i xs = take i xs @ drop (Suc i) xs"

text \<open>The loop that appends \<open>(restored N)\<close> until the name is free.\<close>

partial_function (option) free_restore_path ::
    "fs \<Rightarrow> string \<Rightarrow> string \<Rightarrow> nat \<Rightarrow> string \<Rightarrow> string option" where
  "free_restore_path s base ext counter restore_path =
     (if os_path_exists s restore_path then
        free_restore_path s base ext (counter + 1)
          (base @ '' (restored '' @ str_nat counter @ '')'' @ ext)
      else Some restore_path)"

definition restore_from_trash ::
    "fs \<Rightarrow> string \<Rightarrow> string \<Rightarrow> ((error + string) \<times> fs) option" where
  "restore_from_trash s ed tname =
     (case load_trash_manifest s ed of
        Inl e \<Rightarrow> Some (Inl e, s)
      | Inr doc \<Rightarrow>
     (case items_of doc of
        Inl e \<Rightarrow> Some (Inl e, s)
      | Inr items \<Rightarrow>
     (case find_item tname items 0 of
        None \<Rightarrow> Some (Inl (ValueError ''Item not found in trash''), s)
      | Some (item, item_index) \<Rightarrow>
          (let trash_path = os_path_join (TRASH_DIR ed) tname in
           if \<not> os_path_exists s trash_path then
             (case save_trash_manifest s ed (Manifest (pop_at item_index items)) of
                (Some e, s1) \<Rightarrow> Some (Inl e, s1)
              | (None, s1) \<Rightarrow> Some (Inl (ValueError ''Trash item file not found''), s1))
           else
             (case full_path_of ed (original_path item) of
                Inl e \<Rightarrow> Some (Inl e, s)
              | Inr restore_path0 \<Rightarrow>
                  (case free_restore_path s (fst (os_path_splitext restore_path0))
                          (snd (os_path_splitext restore_path0)) 1 restore_path0 of
                     None \<Rightarrow> None
                   | Some restore_path \<Rightarrow>
                       (let parent_dir = os_path_dirname restore_path in
                        case (if \<not> os_path_exists s parent_dir
                              then os_makedirs s parent_dir False else (None, s)) of
                          (Some e, s1) \<Rightarrow> Some (Inl e, s1)
                        | (None, s1) \<Rightarrow>
                            (case shutil_move s1 trash_path restore_path of
                               (Some e, s2) \<Rightarrow>
                                 Some (Inl (ValueError ''Cannot restore item''), s2)
                             | (None, s2) \<Rightarrow>
                                 (case save_trash_manifest s2 ed
                                         (Manifest (pop_at item_index items)) of
                                    (Some e, s3) \<Rightarrow>
                                      Some (Inl (ValueError ''Cannot restore item''), s3)
                                  | (None, s3) \<Rightarrow>
                                      Some (Inr (os_path_relpath restore_path (BASE_DIR ed)),
                                            s3))))))))))"

text \<open>
  The body of the \<open>try\<close> in the loops of \<open>cleanup_old_trash\<close>: delete the backing object if
  it exists.
\<close>

definition purge :: "fs \<Rightarrow> string \<Rightarrow> error option \<times> fs" where
  "purge s trash_path =
     (if os_path_exists s trash_path then
        (if os_path_isdir s trash_path then shutil_rmtree s trash_path
         else (case os_remove s trash_path of
                 Inl e \<Rightarrow> (Some e, s)
               | Inr s' \<Rightarrow> (None, s')))
      else (None, s))"

text \<open>
  The \<open>for item in manifest["items"]\<close> loop; the loop state is the file system,
  \<open>items_to_keep\<close>, \<open>deleted_count\<close> and \<open>errors\<close> (the names of the failed items).
\<close>

fun cleanup_loop ::
    "string \<Rightarrow> int \<Rightarrow> trash_item list \<Rightarrow> fs \<times> trash_item list \<times> nat \<times> string list
       \<Rightarrow> fs \<times> trash_item list \<times> nat \<times> string list" where
  "cleanup_loop ed current_time [] st = st"
| "cleanup_loop ed current_time (item # rest) (s, items_to_keep, deleted_count, errors) =
     (let age = current_time - deletion_time item;
          max_age_seconds = TRASH_MAX_AGE_DAYS * 24 * 60 * 60
      in if age > max_age_seconds then
           (case purge s (os_path_join (TRASH_DIR ed) (trash_name item)) of
              (None, s') \<Rightarrow>
                cleanup_loop ed current_time rest (s', items_to_keep, deleted_count + 1, errors)
            | (Some e, s') \<Rightarrow>
                cleanup_loop ed current_time rest
                  (s', items_to_keep @ [item], deleted_count, errors @ [trash_name item]))
         else cleanup_loop ed current_time rest
                (s, items_to_keep @ [item], deleted_count, errors))"

text \<open>\<open>cleanup_old_trash\<close> returns \<open>deleted\<close> and \<open>errors\<close>.\<close>

definition cleanup_old_trash ::
    "fs \<Rightarrow> string \<Rightarrow> nat \<Rightarrow> (error + nat \<times> string list) \<times> fs" where
  "cleanup_old_trash s ed now =
     (if \<not> os_path_exists s (TRASH_DIR ed) then (Inr (0, []), s)
      else (case load_trash_manifest s ed of
              Inl e \<Rightarrow> (Inl e, s)
            | Inr doc \<Rightarrow>
                (case items_of doc of
                   Inl e \<Rightarrow> (Inl e, s)
                 | Inr items \<Rightarrow>
                     (case cleanup_loop ed (int now) items (s, [], 0, []) of
                        (s1, items_to_keep, deleted_count, errors) \<Rightarrow>
                          (case save_trash_manifest s1 ed (Manifest items_to_keep) of
                             (Some e, s2) \<Rightarrow> (Inl e, s2)
                           | (None, s2) \<Rightarrow> (Inr (deleted_count, errors), s2))))))"

text \<open>\<open>get_trash_info\<close> returns \<open>count\<close> and \<open>total_size\<close>.\<close>

definition get_trash_info :: "fs \<Rightarrow> string \<Rightarrow> error + nat \<times> nat" where
  "get_trash_info s ed =
     (if \<not> os_path_exists s (TRASH_DIR ed) then Inr (0, 0)
      else (case load_trash_manifest s ed of
              Inl e \<Rightarrow> Inl e
            | Inr doc \<Rightarrow>
                (case items_of doc of
                   Inl e \<Rightarrow> Inl e
                 | Inr items \<Rightarrow> Inr (length items, sum_list (map item_size items)))))"

section \<open>DuplicateScanner\<close>

text \<open>
  \<open>hashlib.sha256\<close> is a parameter \<open>sha\<close>: the hex digest of the bytes fed to it.
  Feeding it block after block gives the digest of the concatenation.
\<close>

function chunks :: "nat \<Rightarrow> bytes \<Rightarrow> bytes list" where
  "chunks n xs = (if n = 0 \<or> xs = [] then [] else take n xs # chunks n (drop n xs))"
  by pat_completeness auto
termination
  by (relation "measure (\<lambda>(n, xs). length xs)") auto

declare chunks.simps [simp del]

definition hash_file :: "(bytes \<Rightarrow> string) \<Rightarrow> fs \<Rightarrow> string \<Rightarrow> bool \<Rightarrow> error + string" where
  "hash_file sha s filepath partial =
     (case os_path_getsize s filepath of
        Inl e \<Rightarrow> Inl e
      | Inr file_size \<Rightarrow>
          (case stat s filepath of
             Some (File c) \<Rightarrow>
               if partial \<and> file_size > LARGE_FILE_THRESHOLD
               then Inr (sha (take PARTIAL_HASH_SIZE c @
                              take PARTIAL_HASH_SIZE (drop (file_size - PARTIAL_HASH_SIZE) c)))
               else Inr (sha (concat (chunks HASH_CHUNK_SIZE c)))
           | _ \<Rightarrow> Inl OSError))"

text \<open>\<open>sub in s\<close> for strings.\<close>

fun contains :: "string \<Rightarrow> string \<Rightarrow> bool" where
  "contains [] sub = (sub = [])"
| "contains (x # xs) sub = (startswith (x # xs) sub \<or> contains xs sub)"

text \<open>
  A \<open>defaultdict(list)\<close> keeps its keys in insertion order: \<open>d[k].append(v)\<close> is
  \<open>dict_append\<close>, and \<open>d[k] = v\<close> is \<open>AList.update\<close>.
\<close>

fun dict_append :: "('k \<times> 'v list) list \<Rightarrow> 'k \<Rightarrow> 'v \<Rightarrow> ('k \<times> 'v list) list" where
  "dict_append [] k v = [(k, [v])]"
| "dict_append (e # d) k v =
     (if fst e = k then (fst e, snd e @ [v]) # d else e # dict_append d k v)"

record file_info =
  f_path :: string
  f_size :: nat
  f_full_path :: string

text \<open>Step 1: the walk that groups the files by size.\<close>

fun size_row ::
    "fs \<Rightarrow> string \<Rightarrow> string \<Rightarrow> string list \<Rightarrow> (nat \<times> (string \<times> string) list) list
       \<Rightarrow> (nat \<times> (string \<times> string) list) list" where
  "size_row s ed root [] size_groups = size_groups"
| "size_row s ed root (fname # files) size_groups =
     (let filepath = os_path_join root fname
      in case os_path_getsize s filepath of
           Inl e \<Rightarrow> size_row s ed root files size_groups
         | Inr file_size \<Rightarrow>
             size_row s ed root files
               (dict_append size_groups file_size
                  (os_path_relpath filepath (BASE_DIR ed), filepath)))"

fun size_walk ::
    "fs \<Rightarrow> string \<Rightarrow> (string \<times> string list) list \<Rightarrow> (nat \<times> (string \<times> string) list) list
       \<Rightarrow> (nat \<times> (string \<times> string) list) list" where
  "size_walk s ed [] size_groups = size_groups"
| "size_walk s ed (row # rows) size_groups =
     (if contains (fst row) ''_duplicates'' \<or> contains (fst row) ''.trash''
      then size_walk s ed rows size_groups
      else size_walk s ed rows (size_row s ed (fst row) (snd row) size_groups))"

text \<open>Steps 2 and 3: the files that share their size with another file are hashed.\<close>

definition files_to_hash :: "(nat \<times> (string \<times> string) list) list \<Rightarrow> (string \<times> string) list" where
  "files_to_hash size_groups =
     concat (map snd (filter (\<lambda>g. length (snd g) > 1) size_groups))"

fun hash_candidates ::
    "(bytes \<Rightarrow> string) \<Rightarrow> fs \<Rightarrow> (string \<times> string) list \<Rightarrow> (string \<times> file_info list) list
       \<Rightarrow> (string \<times> file_info list) list" where
  "hash_candidates sha s [] file_hashes = file_hashes"
| "hash_candidates sha s (fi # rest) file_hashes =
     (case hash_file sha s (snd fi) True of
        Inl e \<Rightarrow> hash_candidates sha s rest file_hashes
      | Inr file_hash \<Rightarrow>
          (case os_path_getsize s (snd fi) of
             Inl e \<Rightarrow> hash_candidates sha s rest file_hashes
           | Inr file_size \<Rightarrow>
               hash_candidates sha s rest
                 (dict_append file_hashes file_hash
                    \<lparr>f_path = fst fi, f_size = file_size, f_full_path = snd fi\<rparr>)))"

text \<open>Step 4: groups whose first file is large are hashed in full.\<close>

fun full_hash_group ::
    "(bytes \<Rightarrow> string) \<Rightarrow> fs \<Rightarrow> file_info list \<Rightarrow> (string \<times> file_info list) list
       \<Rightarrow> (string \<times> file_info list) list" where
  "full_hash_group sha s [] final_hashes = final_hashes"
| "full_hash_group sha s (fi # rest) final_hashes =
     (case hash_file sha s (f_full_path fi) False of
        Inl e \<Rightarrow> full_hash_group sha s rest final_hashes
      | Inr full_hash \<Rightarrow>
          full_hash_group sha s rest (dict_append final_hashes full_hash fi))"

fun confirm_groups ::
    "(bytes \<Rightarrow> string) \<Rightarrow> fs \<Rightarrow> (string \<times> file_info list) list
       \<Rightarrow> (string \<times> file_info list) list \<Rightarrow> (string \<times> file_info list) list" where
  "confirm_groups sha s [] final_hashes = final_hashes"
| "confirm_groups sha s (g # gs) final_hashes =
     (if length (snd g) > 1 then
        (if f_size (hd (snd g)) > LARGE_FILE_THRESHOLD
         then confirm_groups sha s gs (full_hash_group sha s (snd g) final_hashes)
         else confirm_groups sha s gs (AList.update (fst g) (snd g) final_hashes))
      else confirm_groups sha s gs final_hashes)"

text \<open>The part of \<open>find_duplicates\<close> that only reads: the confirmed duplicate groups.\<close>

definition scan_duplicates ::
    "(bytes \<Rightarrow> string) \<Rightarrow> fs \<Rightarrow> string \<Rightarrow> (string \<times> file_info list) list" where
  "scan_duplicates sha s ed =
     (let size_groups = size_walk s ed (os_walk s (BASE_DIR ed)) [];
          file_hashes = hash_candidates sha s (files_to_hash size_groups) [];
          final_hashes = confirm_groups sha s file_hashes []
      in filter (\<lambda>g. length (snd g) > 1) final_hashes)"

text \<open>Copying the members of one group into its quarantine folder.\<close>

definition safe_name :: "string \<Rightarrow> string" where
  "safe_name p = map (\<lambda>c. if c = CHR ''/'' \<or> c = CHR 0x5C then CHR ''_'' else c) p"

fun copy_members :: "fs \<Rightarrow> string \<Rightarrow> nat \<Rightarrow> file_info list \<Rightarrow> fs" where
  "copy_members s hash_folder idx [] = s"
| "copy_members s hash_folder idx (fi # rest) =
     (case shutil_copy2 s (f_full_path fi)
             (os_path_join hash_folder (str_nat idx @ ''_'' @ safe_name (f_path fi))) of
        Inl e \<Rightarrow> copy_members s hash_folder (Suc idx) rest
      | Inr s' \<Rightarrow> copy_members s' hash_folder (Suc idx) rest)"

fun copy_groups :: "fs \<Rightarrow> string \<Rightarrow> (string \<times> file_info list) list \<Rightarrow> error option \<times> fs" where
  "copy_groups s dupes_folder [] = (None, s)"
| "copy_groups s dupes_folder (g # gs) =
     (let hash_folder = os_path_join dupes_folder (take 8 (fst g))
      in case os_makedirs s hash_folder True of
           (Some e, s1) \<Rightarrow> (Some e, s1)
         | (None, s1) \<Rightarrow> copy_groups (copy_members s1 hash_folder 0 (snd g)) dupes_folder gs)"

record dup_group =
  g_hash :: string
  g_count :: nat
  g_size :: nat
  g_files :: "file_info list"

text \<open>\<open>find_duplicates\<close> returns \<open>count\<close> and \<open>duplicates\<close>.\<close>

definition find_duplicates ::
    "(bytes \<Rightarrow> string) \<Rightarrow> fs \<Rightarrow> string \<Rightarrow> (error + nat \<times> dup_group list) \<times> fs" where
  "find_duplicates sha s ed =
     (let duplicates = scan_duplicates sha s ed in
      if duplicates = [] then (Inr (0, []), s)
      else
        (let dupes_folder = os_path_join (BASE_DIR ed) ''_duplicates'' in
         case (if os_path_exists s dupes_folder then shutil_rmtree s dupes_folder
               else (None, s)) of
           (Some e, s1) \<Rightarrow> (Inl e, s1)
         | (None, s1) \<Rightarrow>
             (case os_makedirs s1 dupes_folder False of
                (Some e, s2) \<Rightarrow> (Inl e, s2)
              | (None, s2) \<Rightarrow>
                  (case copy_groups s2 dupes_folder duplicates of
                     (Some e, s3) \<Rightarrow> (Inl e, s3)
                   | (None, s3) \<Rightarrow>
                       (Inr (length duplicates,
                             map (\<lambda>g. \<lparr>g_hash = fst g, g_count = length (snd g),
                                         g_size = f_size (hd (snd g)), g_files = snd g\<rparr>)
                               duplicates),
                        s3)))))"

section \<open>Example file systems\<close>

definition corrupt_trash :: fs where
  "corrupt_trash =
     \<lparr>nodes = [([''opt''], Dir), ([''opt'', ''app''], Dir),
               ([''opt'', ''app'', ''homedrive_storage''], Dir),
               ([''opt'', ''app'', ''homedrive_storage'', ''.trash''], Dir),
               ([''opt'', ''app'', ''homedrive_storage'', ''.trash'', ''item_5_a.txt''],
                File ''abc'')],
      undeletable = [], disk_free = 1000, manifest_file = Malformed\<rparr>"

text \<open>Notions used to state what the scanner hashes.\<close>

definition content_of :: "fs \<Rightarrow> string \<Rightarrow> bytes" where
  "content_of s p = (case stat s p of Some (File c) \<Rightarrow> c | _ \<Rightarrow> [])"

definition readable :: "fs \<Rightarrow> file_info \<Rightarrow> bool" where
  "readable s fi =
     (case stat s (f_full_path fi) of Some (File c) \<Rightarrow> f_size fi = length c | _ \<Rightarrow> False)"

definition head_tail :: "bytes \<Rightarrow> bytes" where
  "head_tail c = take PARTIAL_HASH_SIZE c @ drop (length c - PARTIAL_HASH_SIZE) c"

text \<open>A regular file of exactly 100 MiB in the storage root.\<close>

definition threshold_file :: fs where
  "threshold_file =
     \<lparr>nodes = [([''opt''], Dir), ([''opt'', ''app''], Dir),
               ([''opt'', ''app'', ''homedrive_storage''], Dir),
               ([''opt'', ''app'', ''homedrive_storage'', ''disk.img''],
                File (replicate 104857600 CHR ''a''))],
      undeletable = [], disk_free = 1000, manifest_file = Missing\<rparr>"

text \<open>An empty storage root on a partition with 50 MiB free.\<close>

definition low_space :: fs where
  "low_space =
     \<lparr>nodes = [([''opt''], Dir), ([''opt'', ''app''], Dir),
               ([''opt'', ''app'', ''homedrive_storage''], Dir)],
      undeletable = [], disk_free = 50 * 1024 * 1024, manifest_file = Missing\<rparr>"

definition ten_bytes :: upload where
  "ten_bytes = \<lparr>filename = ''a.txt'', stream = [Chunk ''helloworld'']\<rparr>"

text \<open>
  A storage root with two identical files of 2 MiB, and in the folder \<open>big\<close> two files
  of 102 MiB that differ in their middle 100 MiB but begin and end with the same 1 MiB, which
  are also the two halves of the small files.
\<close>

definition mib_a :: bytes where
  "mib_a = replicate 1048576 CHR ''a''"

definition small_bytes :: bytes where
  "small_bytes = mib_a @ mib_a"

definition large_x :: bytes where
  "large_x = mib_a @ replicate 104857600 CHR ''x'' @ mib_a"

definition large_y :: bytes where
  "large_y = mib_a @ replicate 104857600 CHR ''y'' @ mib_a"

definition mixed_tree :: fs where
  "mixed_tree =
     \<lparr>nodes = [([''opt''], Dir), ([''opt'', ''app''], Dir),
               ([''opt'', ''app'', ''homedrive_storage''], Dir),
               ([''opt'', ''app'', ''homedrive_storage'', ''s1.bin''], File small_bytes),
               ([''opt'', ''app'', ''homedrive_storage'', ''s2.bin''], File small_bytes),
               ([''opt'', ''app'', ''homedrive_storage'', ''big''], Dir),
               ([''opt'', ''app'', ''homedrive_storage'', ''big'', ''l1.bin''], File large_x),
               ([''opt'', ''app'', ''homedrive_storage'', ''big'', ''l2.bin''], File large_y)],
      undeletable = [], disk_free = 0, manifest_file = Missing\<rparr>"

definition s1_info :: file_info where
  "s1_info = \<lparr>f_path = ''s1.bin'', f_size = 2097152,
               f_full_path = ''/opt/app/homedrive_storage/s1.bin''\<rparr>"

definition s2_info :: file_info where
  "s2_info = \<lparr>f_path = ''s2.bin'', f_size = 2097152,
               f_full_path = ''/opt/app/homedrive_storage/s2.bin''\<rparr>"

definition l1_info :: file_info where
  "l1_info = \<lparr>f_path = ''big/l1.bin'', f_size = 106954752,
               f_full_path = ''/opt/app/homedrive_storage/big/l1.bin''\<rparr>"

definition l2_info :: file_info where
  "l2_info = \<lparr>f_path = ''big/l2.bin'', f_size = 106954752,
               f_full_path = ''/opt/app/homedrive_storage/big/l2.bin''\<rparr>"

text \<open>
  A storage root with the folder \<open>Docs\<close> holding one file, and the states it goes through
  when \<open>Docs/\<close> is moved to the trash at time 1700000000 and restored.
\<close>

definition docs_tree :: fs where
  "docs_tree =
     \<lparr>nodes = [([''opt''], Dir), ([''opt'', ''app''], Dir),
               ([''opt'', ''app'', ''homedrive_storage''], Dir),
               ([''opt'', ''app'', ''homedrive_storage'', ''Docs''], Dir),
               ([''opt'', ''app'', ''homedrive_storage'', ''Docs'', ''report.pdf''], File ''%PDF'')],
      undeletable = [], disk_free = 1000, manifest_file = Missing\<rparr>"

definition docs_trash_made :: fs where
  "docs_trash_made =
     \<lparr>nodes = [([''opt''], Dir), ([''opt'', ''app''], Dir),
               ([''opt'', ''app'', ''homedrive_storage''], Dir),
               ([''opt'', ''app'', ''homedrive_storage'', ''Docs''], Dir),
               ([''opt'', ''app'', ''homedrive_storage'', ''Docs'', ''report.pdf''], File ''%PDF''),
               ([''opt'', ''app'', ''homedrive_storage'', ''.trash''], Dir)],
      undeletable = [], disk_free = 1000, manifest_file = Missing\<rparr>"

definition docs_moved :: fs where
  "docs_moved =
     \<lparr>nodes = [([''opt''], Dir), ([''opt'', ''app''], Dir),
               ([''opt'', ''app'', ''homedrive_storage''], Dir),
               ([''opt'', ''app'', ''homedrive_storage'', ''.trash'', ''item_1700000000_''], Dir),
               ([''opt'', ''app'', ''homedrive_storage'', ''.trash'', ''item_1700000000_'',
                 ''report.pdf''], File ''%PDF''),
               ([''opt'', ''app'', ''homedrive_storage'', ''.trash''], Dir)],
      undeletable = [], disk_free = 1000, manifest_file = Missing\<rparr>"

definition docs_item :: trash_item where
  "docs_item =
     \<lparr>trash_name = ''item_1700000000_'', original_path = ''Docs/'', original_name = [],
      deletion_time = 1700000000, is_folder = True, item_size = 4\<rparr>"

definition docs_trashed :: fs where
  "docs_trashed = docs_moved\<lparr>manifest_file := Parsed (Manifest [docs_item])\<rparr>"

definition docs_parent_made :: fs where
  "docs_parent_made =
     docs_trashed\<lparr>nodes := nodes docs_trashed @
        [([''opt'', ''app'', ''homedrive_storage'', ''Docs''], Dir)]\<rparr>"

definition docs_restored :: fs where
  "docs_restored =
     \<lparr>nodes = [([''opt''], Dir), ([''opt'', ''app''], Dir),
               ([''opt'', ''app'', ''homedrive_storage''], Dir),
               ([''opt'', ''app'', ''homedrive_storage'', ''Docs'', ''item_1700000000_''], Dir),
               ([''opt'', ''app'', ''homedrive_storage'', ''Docs'', ''item_1700000000_'',
                 ''report.pdf''], File ''%PDF''),
               ([''opt'', ''app'', ''homedrive_storage'', ''.trash''], Dir),
               ([''opt'', ''app'', ''homedrive_storage'', ''Docs''], Dir)],
      undeletable = [], disk_free = 1000, manifest_file = Parsed (Manifest [])\<rparr>"

text \<open>
  A plain component: a name that is not empty, not \<open>.\<close> or \<open>..\<close>, and has no slash.
  The directory of the executable is \<open>os.path.dirname(os.path.abspath(...))\<close>: an
  absolute path of plain components.
\<close>

definition plain :: "string \<Rightarrow> bool" where
  "plain c = (c \<noteq> [] \<and> c \<noteq> ''.'' \<and> c \<noteq> ''..'' \<and> CHR ''/'' \<notin> set c)"

definition abs_normal :: "string \<Rightarrow> bool" where
  "abs_normal ed =
     (case split_on CHR ''/'' ed of
        [] \<Rightarrow> False
      | h # comps \<Rightarrow> h = [] \<and> comps \<noteq> [] \<and> list_all plain comps)"

text \<open>The locations of the storage root and of the trash directory.\<close>

definition storage_loc :: "string \<Rightarrow> string list" where
  "storage_loc ed = tl (split_on CHR ''/'' ed) @ [''homedrive_storage'']"

definition trash_loc :: "string \<Rightarrow> string list" where
  "trash_loc ed = storage_loc ed @ [''.trash'']"

text \<open>Every proper prefix of \<open>k\<close> is a directory.\<close>

definition parents_ok :: "tree \<Rightarrow> string list \<Rightarrow> bool" where
  "parents_ok t k = list_all (\<lambda>i. lookup t (take i k) = Some Dir) [0..<length k]"

text \<open>The trash directory is a directory that can be reached.\<close>

definition trash_ok :: "fs \<Rightarrow> string \<Rightarrow> bool" where
  "trash_ok s ed =
     (parents_ok (nodes s) (trash_loc ed) \<and> lookup (nodes s) (trash_loc ed) = Some Dir)"

text \<open>
  The purge of the trash item \<open>n\<close> raises: the \<open>try\<close> of \<open>cleanup_old_trash\<close> ends in its
  handler.
\<close>

definition stuck :: "fs \<Rightarrow> string \<Rightarrow> string \<Rightarrow> bool" where
  "stuck s ed n = (fst (purge s (os_path_join (TRASH_DIR ed) n)) \<noteq> None)"

text \<open>
  The purge of the trash item \<open>n\<close> raises before anything is removed: the first entry that it
  would remove is refused.
\<close>

definition jammed :: "fs \<Rightarrow> string \<Rightarrow> string \<Rightarrow> bool" where
  "jammed s ed n = (purge s (os_path_join (TRASH_DIR ed) n) = (Some PermissionError, s))"

text \<open>The age test of \<open>cleanup_old_trash\<close>.\<close>

definition expired :: "int \<Rightarrow> trash_item \<Rightarrow> bool" where
  "expired t i = (t - deletion_time i > TRASH_MAX_AGE_DAYS * 24 * 60 * 60)"

text \<open>The items that \<open>cleanup_old_trash\<close> iterates over: those of the loaded manifest.\<close>

definition trash_items :: "fs \<Rightarrow> string \<Rightarrow> trash_item list" where
  "trash_items s ed =
     (case load_trash_manifest s ed of
        Inr (Manifest items) \<Rightarrow> items
      | _ \<Rightarrow> [])"

text \<open>
  The trash names of the manifest are plain components, as \<open>move_to_trash\<close> writes them
  (\<open>item_<time>_<base name>\<close>).
\<close>

definition manifest_names_plain :: "fs \<Rightarrow> string \<Rightarrow> bool" where
  "manifest_names_plain s ed =
     (case load_trash_manifest s ed of
        Inr (Manifest items) \<Rightarrow> list_all (\<lambda>i. plain (trash_name i)) items
      | _ \<Rightarrow> True)"

text \<open>
  A trash with a file and a folder deleted long ago and a file deleted a second ago. The
  folder holds two files, of which the second cannot be removed. The same trash after the
  expiry cleanup at time 1700000000: the first file of the folder is gone, the folder and its
  second file are still there.
\<close>

definition item_a :: trash_item where
  "item_a = \<lparr>trash_name = ''item_100_a.txt'', original_path = ''a.txt'',
              original_name = ''a.txt'', deletion_time = 100, is_folder = False, item_size = 3\<rparr>"

definition item_d :: trash_item where
  "item_d = \<lparr>trash_name = ''item_100_docs'', original_path = ''docs'',
              original_name = ''docs'', deletion_time = 100, is_folder = True, item_size = 5\<rparr>"

definition item_c :: trash_item where
  "item_c = \<lparr>trash_name = ''item_1699999999_c.txt'', original_path = ''c.txt'',
              original_name = ''c.txt'', deletion_time = 1699999999, is_folder = False,
              item_size = 1\<rparr>"

definition old_trash :: fs where
  "old_trash =
     \<lparr>nodes = [([''opt''], Dir), ([''opt'', ''app''], Dir),
               ([''opt'', ''app'', ''homedrive_storage''], Dir),
               ([''opt'', ''app'', ''homedrive_storage'', ''.trash''], Dir),
               ([''opt'', ''app'', ''homedrive_storage'', ''.trash'', ''item_100_a.txt''],
                File ''aaa''),
               ([''opt'', ''app'', ''homedrive_storage'', ''.trash'', ''item_100_docs''], Dir),
               ([''opt'', ''app'', ''homedrive_storage'', ''.trash'', ''item_100_docs'',
                 ''x.txt''], File ''xx''),
               ([''opt'', ''app'', ''homedrive_storage'', ''.trash'', ''item_100_docs'',
                 ''y.txt''], File ''yyy''),
               ([''opt'', ''app'', ''homedrive_storage'', ''.trash'', ''item_1699999999_c.txt''],
                File ''c'')],
      undeletable = [[''opt'', ''app'', ''homedrive_storage'', ''.trash'', ''item_100_docs'',
                      ''y.txt'']],
      disk_free = 1000,
      manifest_file = Parsed (Manifest [item_a, item_d, item_c])\<rparr>"

definition old_trash_cleaned :: fs where
  "old_trash_cleaned =
     \<lparr>nodes = [([''opt''], Dir), ([''opt'', ''app''], Dir),
               ([''opt'', ''app'', ''homedrive_storage''], Dir),
               ([''opt'', ''app'', ''homedrive_storage'', ''.trash''], Dir),
               ([''opt'', ''app'', ''homedrive_storage'', ''.trash'', ''item_100_docs''], Dir),
               ([''opt'', ''app'', ''homedrive_storage'', ''.trash'', ''item_100_docs'',
                 ''y.txt''], File ''yyy''),
               ([''opt'', ''app'', ''homedrive_storage'', ''.trash'', ''item_1699999999_c.txt''],
                File ''c'')],
      undeletable = [[''opt'', ''app'', ''homedrive_storage'', ''.trash'', ''item_100_docs'',
                      ''y.txt'']],
      disk_free = 1005,
      manifest_file = Parsed (Manifest [item_d, item_c])\<rparr>"

text \<open>
  A trash with one file deleted at time 10, every entry removable; and the same trash
  emptied.
\<close>

definition item_e :: trash_item where
  "item_e = \<lparr>trash_name = ''item_10_e.txt'', original_path = ''e.txt'',
              original_name = ''e.txt'', deletion_time = 10, is_folder = False, item_size = 3\<rparr>"

definition month_old_trash :: fs where
  "month_old_trash =
     \<lparr>nodes = [([''opt''], Dir), ([''opt'', ''app''], Dir),
               ([''opt'', ''app'', ''homedrive_storage''], Dir),
               ([''opt'', ''app'', ''homedrive_storage'', ''.trash''], Dir),
               ([''opt'', ''app'', ''homedrive_storage'', ''.trash'', ''item_10_e.txt''],
                File ''eee'')],
      undeletable = [],
      disk_free = 1000,
      manifest_file = Parsed (Manifest [item_e])\<rparr>"

definition month_old_trash_emptied :: fs where
  "month_old_trash_emptied =
     \<lparr>nodes = [([''opt''], Dir), ([''opt'', ''app''], Dir),
               ([''opt'', ''app'', ''homedrive_storage''], Dir),
               ([''opt'', ''app'', ''homedrive_storage'', ''.trash''], Dir)],
      undeletable = [],
      disk_free = 1003,
      manifest_file = Parsed (Manifest [])\<rparr>"

text \<open>The quarantine directory and its location.\<close>

definition dupes_folder :: "string \<Rightarrow> string" where
  "dupes_folder ed = os_path_join (BASE_DIR ed) ''_duplicates''"

definition dupes_loc :: "string \<Rightarrow> string list" where
  "dupes_loc ed = storage_loc ed @ [''_duplicates'']"

text \<open>Every entry of the tree lies in a directory of the tree.\<close>

definition well_formed :: "fs \<Rightarrow> bool" where
  "well_formed s =
     list_all (\<lambda>e. fst e \<noteq> [] \<and> lookup (nodes s) (butlast (fst e)) = Some Dir) (nodes s)"

text \<open>The quarantine directory exists and nothing lies below it.\<close>

definition quarantine_fresh :: "fs \<Rightarrow> string \<Rightarrow> bool" where
  "quarantine_fresh s ed =
     (os_path_isdir s (dupes_folder ed)
      \<and> list_all (\<lambda>e. fst e = dupes_loc ed) (subtree (nodes s) (dupes_loc ed)))"

text \<open>
  A storage root with one file and the quarantine directory of an earlier scan; and the
  same with a second file identical to the first.
\<close>

definition stale_quarantine :: fs where
  "stale_quarantine =
     \<lparr>nodes = [([''opt''], Dir), ([''opt'', ''app''], Dir),
               ([''opt'', ''app'', ''homedrive_storage''], Dir),
               ([''opt'', ''app'', ''homedrive_storage'', ''a.txt''], File ''hello''),
               ([''opt'', ''app'', ''homedrive_storage'', ''_duplicates''], Dir),
               ([''opt'', ''app'', ''homedrive_storage'', ''_duplicates'', ''deadbeef''], Dir),
               ([''opt'', ''app'', ''homedrive_storage'', ''_duplicates'', ''deadbeef'',
                 ''0_old.txt''], File ''old'')],
      undeletable = [], disk_free = 1000, manifest_file = Missing\<rparr>"

definition stale_with_twins :: fs where
  "stale_with_twins =
     \<lparr>nodes = [([''opt''], Dir), ([''opt'', ''app''], Dir),
               ([''opt'', ''app'', ''homedrive_storage''], Dir),
               ([''opt'', ''app'', ''homedrive_storage'', ''a.txt''], File ''hello''),
               ([''opt'', ''app'', ''homedrive_storage'', ''b.txt''], File ''hello''),
               ([''opt'', ''app'', ''homedrive_storage'', ''_duplicates''], Dir),
               ([''opt'', ''app'', ''homedrive_storage'', ''_duplicates'', ''deadbeef''], Dir),
               ([''opt'', ''app'', ''homedrive_storage'', ''_duplicates'', ''deadbeef'',
                 ''0_old.txt''], File ''old'')],
      undeletable = [], disk_free = 1000, manifest_file = Missing\<rparr>"

definition twins_wiped :: fs where
  "twins_wiped =
     \<lparr>nodes = [([''opt''], Dir), ([''opt'', ''app''], Dir),
               ([''opt'', ''app'', ''homedrive_storage''], Dir),
               ([''opt'', ''app'', ''homedrive_storage'', ''a.txt''], File ''hello''),
               ([''opt'', ''app'', ''homedrive_storage'', ''b.txt''], File ''hello'')],
      undeletable = [], disk_free = 1003, manifest_file = Missing\<rparr>"

definition twins_scanned :: fs where
  "twins_scanned =
     \<lparr>nodes = [([''opt''], Dir), ([''opt'', ''app''], Dir),
               ([''opt'', ''app'', ''homedrive_storage''], Dir),
               ([''opt'', ''app'', ''homedrive_storage'', ''a.txt''], File ''hello''),
               ([''opt'', ''app'', ''homedrive_storage'', ''b.txt''], File ''hello''),
               ([''opt'', ''app'', ''homedrive_storage'', ''_duplicates''], Dir),
               ([''opt'', ''app'', ''homedrive_storage'', ''_duplicates'', ''hello''], Dir),
               ([''opt'', ''app'', ''homedrive_storage'', ''_duplicates'', ''hello'',
                 ''0_a.txt''], File ''hello''),
               ([''opt'', ''app'', ''homedrive_storage'', ''_duplicates'', ''hello'',
                 ''1_b.txt''], File ''hello'')],
      undeletable = [], disk_free = 993, manifest_file = Missing\<rparr>"

definition a_info :: file_info where
  "a_info = \<lparr>f_path = ''a.txt'', f_size = 5, f_full_path = ''/opt/app/homedrive_storage/a.txt''\<rparr>"

definition b_info :: file_info where
  "b_info = \<lparr>f_path = ''b.txt'', f_size = 5, f_full_path = ''/opt/app/homedrive_storage/b.txt''\<rparr>"

definition twins_made :: fs where
  "twins_made =
     twins_wiped\<lparr>nodes := nodes twins_wiped @
        [([''opt'', ''app'', ''homedrive_storage'', ''_duplicates''], Dir)]\<rparr>"

text \<open>
  The bytes that the read loop takes from a stream (up to the first empty chunk or failure),
  and whether the loop reaches the end of the stream without a failed read.
\<close>

fun payload :: "read_result list \<Rightarrow> bytes" where
  "payload [] = []"
| "payload (ReadFails # rest) = []"
| "payload (Chunk c # rest) = (if c = [] then [] else c @ payload rest)"

fun complete :: "read_result list \<Rightarrow> bool" where
  "complete [] = True"
| "complete (ReadFails # rest) = False"
| "complete (Chunk c # rest) = (c = [] \<or> complete rest)"

text \<open>
  The operating system denies the removal of what the path names; the path names a regular
  file.
\<close>

definition removal_denied :: "fs \<Rightarrow> string \<Rightarrow> bool" where
  "removal_denied s p =
     (case locate s p of None \<Rightarrow> False | Some k \<Rightarrow> k \<in> set (undeletable s))"

definition is_file :: "fs \<Rightarrow> string \<Rightarrow> bool" where
  "is_file s p = (case stat s p of Some (File c) \<Rightarrow> True | _ \<Rightarrow> False)"

text \<open>
  Between \<open>s\<close> and \<open>s'\<close> only the entry at location \<open>k\<close> may differ, and it is
  no directory in either.
\<close>

definition touched :: "string list \<Rightarrow> fs \<Rightarrow> fs \<Rightarrow> bool" where
  "touched k s s' =
     (undeletable s' = undeletable s
      \<and> lookup (nodes s) k \<noteq> Some Dir \<and> lookup (nodes s') k \<noteq> Some Dir
      \<and> (\<forall>q. q \<noteq> k \<longrightarrow> lookup (nodes s') q = lookup (nodes s) q))"

text \<open>
  An upload of \<open>a.txt\<close> whose stream fails after five bytes, and a storage root in which
  the operating system denies the removal of \<open>a.txt.tmp\<close>.
\<close>

definition broken_stream :: upload where
  "broken_stream = \<lparr>filename = ''a.txt'', stream = [Chunk ''hello'', ReadFails]\<rparr>"

definition sticky_temp :: fs where
  "sticky_temp =
     low_space\<lparr>undeletable := [[''opt'', ''app'', ''homedrive_storage'', ''a.txt.tmp'']]\<rparr>"

text \<open>
  The path that \<open>save_uploaded_file\<close> forms for a file name in the upload folder:
  \<open>os.path.join(user_path, filename) if user_path else filename\<close>.
\<close>

definition upload_target :: "string \<Rightarrow> string \<Rightarrow> string" where
  "upload_target user_path name =
     (if user_path \<noteq> [] then os_path_join user_path name else name)"

text \<open>The storage root of \<open>low_space\<close> after the folder \<open>Photos\<close> was made.\<close>

definition photos_made :: fs where
  "photos_made =
     low_space\<lparr>nodes := nodes low_space @
        [([''opt'', ''app'', ''homedrive_storage'', ''Photos''], Dir)]\<rparr>"

text \<open>
  The storage root of \<open>photos_made\<close> after a first and after a second upload of a file
  \<open>a.txt\<close> with the relative path \<open>Photos/a.txt\<close>.
\<close>

definition photos_first :: fs where
  "photos_first =
     photos_made\<lparr>nodes := nodes photos_made @
        [([''opt'', ''app'', ''homedrive_storage'', ''Photos'', ''a.txt''], File ''helloworld'')],
       disk_free := 52428790\<rparr>"

definition photos_second :: fs where
  "photos_second =
     photos_first\<lparr>nodes := nodes photos_first @
        [([''opt'', ''app'', ''homedrive_storage'', ''a_1.txt''], File ''helloworld'')],
       disk_free := 52428780\<rparr>"

text \<open>
  The digest that the first pass is to give a file of content \<open>c\<close>: over its first and last
  1 MiB when it is larger than the threshold, over all of it otherwise.
\<close>

definition first_digest :: "(bytes \<Rightarrow> string) \<Rightarrow> bytes \<Rightarrow> string" where
  "first_digest sha c = (if length c > LARGE_FILE_THRESHOLD then sha (head_tail c) else sha c)"

text \<open>
  What the first pass is to file for the candidates, in their order: every candidate that
  is a regular file under its first digest, with its path and size.
\<close>

definition first_pass ::
    "(bytes \<Rightarrow> string) \<Rightarrow> fs \<Rightarrow> (string \<times> string) list \<Rightarrow> (string \<times> file_info list) list
       \<Rightarrow> (string \<times> file_info list) list" where
  "first_pass sha s cands acc =
     foldl (\<lambda>d c. case stat s (snd c) of
                    Some (File b) \<Rightarrow>
                      dict_append d (first_digest sha b)
                        \<lparr>f_path = fst c, f_size = length b, f_full_path = snd c\<rparr>
                  | _ \<Rightarrow> d)
       acc cands"

text \<open>
  A storage root whose folder \<open>big\<close> holds three files of 102 MiB that begin and end with the
  same 1 MiB; the first and the third are identical, the second differs in its middle.
\<close>

definition large_trio :: fs where
  "large_trio =
     \<lparr>nodes = [([''opt''], Dir), ([''opt'', ''app''], Dir),
               ([''opt'', ''app'', ''homedrive_storage''], Dir),
               ([''opt'', ''app'', ''homedrive_storage'', ''big''], Dir),
               ([''opt'', ''app'', ''homedrive_storage'', ''big'', ''l1.bin''], File large_x),
               ([''opt'', ''app'', ''homedrive_storage'', ''big'', ''l2.bin''], File large_y),
               ([''opt'', ''app'', ''homedrive_storage'', ''big'', ''l3.bin''], File large_x)],
      undeletable = [], disk_free = 0, manifest_file = Missing\<rparr>"

definition l3_info :: file_info where
  "l3_info = \<lparr>f_path = ''big/l3.bin'', f_size = 106954752,
               f_full_path = ''/opt/app/homedrive_storage/big/l3.bin''\<rparr>"

section \<open>Unfolding rules for concrete file systems\<close>

lemmas path_defs = os_path_join_def startswith_def endswith_def BASE_DIR_def TRASH_DIR_def
  tail_of_def head_of_def os_path_basename_def os_path_dirname_def os_path_splitext_def
  rstrip_sep_def

lemmas guard_defs = full_path_of_def get_full_path_def is_safe_path_def resolve_def
  pathlib_join_def path_str_def

lemmas fs_defs = locate_def stat_def os_path_exists_def os_path_isdir_def os_path_getsize_def
  lookup_def open_wb_def file_write_def os_remove_def os_replace_def os_makedirs_def
  is_under_def

lemmas name_defs = secure_filename_def ascii_fold_def strip_chars_def filename_char_def is_space_def

section \<open>Path confinement\<close>

text \<open>
  C1. With the storage root \<open>/opt/app/homedrive_storage\<close> and no symbolic link at all, the
  relative path \<open>../homedrive_storage_old/secret.txt\<close> leaves the root through \<open>..\<close> and
  resolves to a sibling directory whose name merely starts with the root's name. The prefix
  test accepts it: \<open>is_safe_path\<close> is true and \<open>get_full_path\<close> returns a path outside
  the storage root instead of raising \<open>ValueError("Invalid path")\<close>.
\<close>

theorem path_guard_accepts_sibling_of_root:
  "resolve [] (BASE_DIR ''/opt/app'') = Inr ''/opt/app/homedrive_storage''
   \<and> resolve [] (pathlib_join ''/opt/app/homedrive_storage'' ''../homedrive_storage_old/secret.txt'')
       = Inr ''/opt/app/homedrive_storage_old/secret.txt''
   \<and> is_safe_path [] ''/opt/app'' ''../homedrive_storage_old/secret.txt'' = Inr True
   \<and> get_full_path [] ''/opt/app'' ''../homedrive_storage_old/secret.txt''
       = Inr ''/opt/app/homedrive_storage/../homedrive_storage_old/secret.txt''"
proof -
  have base: "resolve [] (BASE_DIR ''/opt/app'') = Inr ''/opt/app/homedrive_storage''"
    by (simp add: resolve_def BASE_DIR_def os_path_join_def startswith_def endswith_def
        path_str_def)
  have target:
    "resolve [] (pathlib_join ''/opt/app/homedrive_storage'' ''../homedrive_storage_old/secret.txt'')
       = Inr ''/opt/app/homedrive_storage_old/secret.txt''"
    by (simp add: resolve_def pathlib_join_def startswith_def path_str_def)
  have safe: "is_safe_path [] ''/opt/app'' ''../homedrive_storage_old/secret.txt'' = Inr True"
    by (simp add: is_safe_path_def base target) (simp add: startswith_def)
  have full: "get_full_path [] ''/opt/app'' ''../homedrive_storage_old/secret.txt''
       = Inr ''/opt/app/homedrive_storage/../homedrive_storage_old/secret.txt''"
    by (simp add: get_full_path_def safe)
      (simp add: BASE_DIR_def os_path_join_def startswith_def endswith_def)
  from base target safe full show ?thesis by blast
qed

section \<open>Loading the trash manifest\<close>

lemma load_trash_manifest_returns: "\<exists>d. load_trash_manifest s ed = Inr d"
  by (simp add: load_trash_manifest_def split: sum.split)

lemma load_trash_manifest_broken:
  assumes "\<not> manifest_exists s ed \<or> manifest_file s = Unreadable \<or> manifest_file s = Malformed"
  shows "load_trash_manifest s ed = Inr (Manifest [])"
  using assms by (auto simp: load_trash_manifest_def read_manifest_def)

text \<open>
  C10. \<open>load_trash_manifest\<close> returns a manifest in every state of the file system, and
  when the manifest file is missing, cannot be opened or does not hold JSON, the manifest
  returned is \<open>{"items": []}\<close> and \<open>get_trash_info\<close> reports a count (and a total
  size) of 0.
\<close>

theorem load_manifest_never_raises:
  "(\<exists>d. load_trash_manifest s ed = Inr d)
   \<and> (\<not> manifest_exists s ed \<or> manifest_file s = Unreadable \<or> manifest_file s = Malformed
        \<longrightarrow> load_trash_manifest s ed = Inr (Manifest [])
            \<and> get_trash_info s ed = Inr (0, 0))"
proof -
  have "get_trash_info s ed = Inr (0, 0)"
    if "load_trash_manifest s ed = Inr (Manifest [])"
    using that by (simp add: get_trash_info_def items_of_def)
  with load_trash_manifest_returns load_trash_manifest_broken show ?thesis
    by blast
qed

text \<open>
  The trash directory holds an object, the manifest file is there and is not JSON: the
  trash presents itself as empty.
\<close>

theorem load_manifest_never_raises_witness:
  "manifest_exists corrupt_trash ''/opt/app''
   \<and> manifest_file corrupt_trash = Malformed
   \<and> load_trash_manifest corrupt_trash ''/opt/app'' = Inr (Manifest [])
   \<and> get_trash_info corrupt_trash ''/opt/app'' = Inr (0, 0)"
proof -
  have ex: "manifest_exists corrupt_trash ''/opt/app''"
    by (simp add: manifest_exists_def corrupt_trash_def path_defs fs_defs)
  have m: "manifest_file corrupt_trash = Malformed"
    by (simp add: corrupt_trash_def)
  from load_manifest_never_raises [of corrupt_trash "''/opt/app''"] m ex show ?thesis
    by simp
qed

section \<open>Hashing\<close>

lemma concat_chunks: "0 < n \<Longrightarrow> concat (chunks n xs) = xs"
proof (induction n xs rule: chunks.induct)
  case (1 n xs)
  show ?case
  proof (cases "xs = []")
    case True
    then show ?thesis by (simp add: chunks.simps)
  next
    case False
    with 1 have "concat (chunks n (drop n xs)) = drop n xs" by simp
    with False 1(2) show ?thesis
      by (subst chunks.simps) simp
  qed
qed

lemma hash_file_of_content:
  assumes "stat s p = Some (File c)"
  shows "hash_file sha s p partial =
           Inr (if partial \<and> length c > LARGE_FILE_THRESHOLD then sha (head_tail c) else sha c)"
proof -
  have "take PARTIAL_HASH_SIZE (drop (length c - PARTIAL_HASH_SIZE) c)
          = drop (length c - PARTIAL_HASH_SIZE) c"
    by simp
  with assms show ?thesis
    by (simp add: hash_file_def os_path_getsize_def head_tail_def concat_chunks
        HASH_CHUNK_SIZE_def)
qed

lemma full_hash_group_readable:
  "list_all (readable s) files \<Longrightarrow>
     full_hash_group sha s files acc =
       foldl (\<lambda>d fi. dict_append d (sha (content_of s (f_full_path fi))) fi) acc files"
proof (induction files arbitrary: acc)
  case Nil
  then show ?case by simp
next
  case (Cons fi files)
  from Cons.prems obtain c where c: "stat s (f_full_path fi) = Some (File c)"
    by (auto simp: readable_def split: option.splits node.splits)
  with Cons show ?case
    by (simp add: hash_file_of_content content_of_def)
qed

lemma length_mib_a: "length mib_a = 1048576"
  by (simp add: mib_a_def)

lemma length_small_bytes: "length small_bytes = 2097152"
  by (simp add: small_bytes_def length_mib_a)

lemma length_large: "length large_x = 106954752" "length large_y = 106954752"
  by (simp_all add: large_x_def large_y_def length_mib_a)

lemma head_tail_large: "head_tail large_x = small_bytes" "head_tail large_y = small_bytes"
  by (simp_all add: head_tail_def length_large PARTIAL_HASH_SIZE_def)
     (simp_all add: large_x_def large_y_def small_bytes_def length_mib_a)

lemma large_x_neq_y: "large_x \<noteq> large_y"
  by (simp add: large_x_def large_y_def)

lemma stat_mixed_tree:
  "stat mixed_tree ''/opt/app/homedrive_storage/s1.bin'' = Some (File small_bytes)"
  "stat mixed_tree ''/opt/app/homedrive_storage/s2.bin'' = Some (File small_bytes)"
  "stat mixed_tree ''/opt/app/homedrive_storage/big/l1.bin'' = Some (File large_x)"
  "stat mixed_tree ''/opt/app/homedrive_storage/big/l2.bin'' = Some (File large_y)"
  by (simp_all add: mixed_tree_def fs_defs)

lemma walk_mixed_tree:
  "os_walk mixed_tree (BASE_DIR ''/opt/app'') =
     [(''/opt/app/homedrive_storage'', [''s1.bin'', ''s2.bin'']),
      (''/opt/app/homedrive_storage/big'', [''l1.bin'', ''l2.bin''])]"
  by (simp add: os_walk_def mixed_tree_def fs_defs path_defs files_in_def)

lemma skip_rows:
  "\<not> contains ''/opt/app/homedrive_storage'' ''_duplicates''"
  "\<not> contains ''/opt/app/homedrive_storage'' ''.trash''"
  "\<not> contains ''/opt/app/homedrive_storage/big'' ''_duplicates''"
  "\<not> contains ''/opt/app/homedrive_storage/big'' ''.trash''"
  by (simp_all add: startswith_def)

lemma join_mixed:
  "os_path_join ''/opt/app/homedrive_storage'' ''s1.bin'' = ''/opt/app/homedrive_storage/s1.bin''"
  "os_path_join ''/opt/app/homedrive_storage'' ''s2.bin'' = ''/opt/app/homedrive_storage/s2.bin''"
  "os_path_join ''/opt/app/homedrive_storage/big'' ''l1.bin'' = ''/opt/app/homedrive_storage/big/l1.bin''"
  "os_path_join ''/opt/app/homedrive_storage/big'' ''l2.bin'' = ''/opt/app/homedrive_storage/big/l2.bin''"
  by (simp_all add: os_path_join_def startswith_def endswith_def)

lemma relpath_mixed:
  "os_path_relpath ''/opt/app/homedrive_storage/s1.bin'' (BASE_DIR ''/opt/app'') = ''s1.bin''"
  "os_path_relpath ''/opt/app/homedrive_storage/s2.bin'' (BASE_DIR ''/opt/app'') = ''s2.bin''"
  "os_path_relpath ''/opt/app/homedrive_storage/big/l1.bin'' (BASE_DIR ''/opt/app'') = ''big/l1.bin''"
  "os_path_relpath ''/opt/app/homedrive_storage/big/l2.bin'' (BASE_DIR ''/opt/app'') = ''big/l2.bin''"
  by (simp_all add: os_path_relpath_def BASE_DIR_def os_path_join_def startswith_def endswith_def)

lemma getsize_mixed:
  "os_path_getsize mixed_tree ''/opt/app/homedrive_storage/s1.bin'' = Inr 2097152"
  "os_path_getsize mixed_tree ''/opt/app/homedrive_storage/s2.bin'' = Inr 2097152"
  "os_path_getsize mixed_tree ''/opt/app/homedrive_storage/big/l1.bin'' = Inr 106954752"
  "os_path_getsize mixed_tree ''/opt/app/homedrive_storage/big/l2.bin'' = Inr 106954752"
  by (simp_all add: os_path_getsize_def stat_mixed_tree length_small_bytes length_large)

lemma sizes_mixed_tree:
  "size_walk mixed_tree ''/opt/app'' (os_walk mixed_tree (BASE_DIR ''/opt/app'')) [] =
     [(2097152, [(''s1.bin'', ''/opt/app/homedrive_storage/s1.bin''),
                 (''s2.bin'', ''/opt/app/homedrive_storage/s2.bin'')]),
      (106954752, [(''big/l1.bin'', ''/opt/app/homedrive_storage/big/l1.bin''),
                   (''big/l2.bin'', ''/opt/app/homedrive_storage/big/l2.bin'')])]"
  by (simp add: walk_mixed_tree skip_rows join_mixed relpath_mixed getsize_mixed
      del: contains.simps)

lemma partial_hash_mixed:
  "hash_file sha mixed_tree ''/opt/app/homedrive_storage/s1.bin'' True = Inr (sha small_bytes)"
  "hash_file sha mixed_tree ''/opt/app/homedrive_storage/s2.bin'' True = Inr (sha small_bytes)"
  "hash_file sha mixed_tree ''/opt/app/homedrive_storage/big/l1.bin'' True = Inr (sha small_bytes)"
  "hash_file sha mixed_tree ''/opt/app/homedrive_storage/big/l2.bin'' True = Inr (sha small_bytes)"
  by (simp_all add: hash_file_of_content stat_mixed_tree length_small_bytes length_large
      LARGE_FILE_THRESHOLD_def head_tail_large)

lemma hash_candidates_first_pass:
  "hash_candidates sha s cands acc = first_pass sha s cands acc"
proof (induction cands arbitrary: acc)
  case Nil
  then show ?case by (simp add: first_pass_def)
next
  case (Cons c cands)
  show ?case
  proof (cases "stat s (snd c)")
    case None
    then have "hash_file sha s (snd c) True = Inl OSError"
      by (simp add: hash_file_def os_path_getsize_def)
    with None Cons [of acc] show ?thesis by (simp add: first_pass_def)
  next
    case (Some n)
    show ?thesis
    proof (cases n)
      case Dir
      with Some have "hash_file sha s (snd c) True = Inl OSError"
        by (simp add: hash_file_def os_path_getsize_def)
      with Some Dir Cons [of acc] show ?thesis by (simp add: first_pass_def)
    next
      case (File b)
      with Some have st: "stat s (snd c) = Some (File b)" by simp
      then have h: "hash_file sha s (snd c) True = Inr (first_digest sha b)"
        by (simp add: hash_file_of_content first_digest_def)
      from st have g: "os_path_getsize s (snd c) = Inr (length b)"
        by (simp add: os_path_getsize_def)
      from Cons [of "dict_append acc (first_digest sha b)
                       \<lparr>f_path = fst c, f_size = length b, f_full_path = snd c\<rparr>"]
      show ?thesis by (simp add: h g st first_pass_def)
    qed
  qed
qed

lemma stat_large_trio:
  "stat large_trio ''/opt/app/homedrive_storage/big/l1.bin'' = Some (File large_x)"
  "stat large_trio ''/opt/app/homedrive_storage/big/l2.bin'' = Some (File large_y)"
  "stat large_trio ''/opt/app/homedrive_storage/big/l3.bin'' = Some (File large_x)"
  by (simp_all add: large_trio_def fs_defs)

lemma walk_large_trio:
  "os_walk large_trio (BASE_DIR ''/opt/app'') =
     [(''/opt/app/homedrive_storage'', []),
      (''/opt/app/homedrive_storage/big'', [''l1.bin'', ''l2.bin'', ''l3.bin''])]"
  by (simp add: os_walk_def large_trio_def fs_defs path_defs files_in_def)

lemma join_large_trio:
  "os_path_join ''/opt/app/homedrive_storage/big'' ''l3.bin'' = ''/opt/app/homedrive_storage/big/l3.bin''"
  by (simp add: os_path_join_def startswith_def endswith_def)

lemma relpath_large_trio:
  "os_path_relpath ''/opt/app/homedrive_storage/big/l3.bin'' (BASE_DIR ''/opt/app'') = ''big/l3.bin''"
  by (simp add: os_path_relpath_def BASE_DIR_def os_path_join_def startswith_def endswith_def)

lemma getsize_large_trio:
  "os_path_getsize large_trio ''/opt/app/homedrive_storage/big/l1.bin'' = Inr 106954752"
  "os_path_getsize large_trio ''/opt/app/homedrive_storage/big/l2.bin'' = Inr 106954752"
  "os_path_getsize large_trio ''/opt/app/homedrive_storage/big/l3.bin'' = Inr 106954752"
  by (simp_all add: os_path_getsize_def stat_large_trio length_large)

lemma candidates_large_trio:
  "files_to_hash (size_walk large_trio ''/opt/app'' (os_walk large_trio (BASE_DIR ''/opt/app'')) [])
     = [(''big/l1.bin'', ''/opt/app/homedrive_storage/big/l1.bin''),
        (''big/l2.bin'', ''/opt/app/homedrive_storage/big/l2.bin''),
        (''big/l3.bin'', ''/opt/app/homedrive_storage/big/l3.bin'')]"
  by (simp add: walk_large_trio skip_rows join_mixed relpath_mixed join_large_trio
      relpath_large_trio getsize_large_trio files_to_hash_def del: contains.simps)

lemma first_pass_large_trio:
  "first_pass (\<lambda>b. b) large_trio
     [(''big/l1.bin'', ''/opt/app/homedrive_storage/big/l1.bin''),
      (''big/l2.bin'', ''/opt/app/homedrive_storage/big/l2.bin''),
      (''big/l3.bin'', ''/opt/app/homedrive_storage/big/l3.bin'')] []
     = [(small_bytes, [l1_info, l2_info, l3_info])]"
  by (simp add: first_pass_def stat_large_trio first_digest_def length_large
      LARGE_FILE_THRESHOLD_def head_tail_large l1_info_def l2_info_def l3_info_def)

text \<open>
  C5 (as the code has it). The first pass of the scan files every candidate that is a
  regular file under its first digest: the digest over its first and its last 1 MiB exactly
  when its size is strictly above 100 MiB, the digest of its whole content when it is at most
  100 MiB; the scan reports the groups of two or more files that the confirmation makes of
  what the first pass has filed for the size-matched candidates. For two or more readable
  files that share a first digest: when all of them are above 100 MiB each is hashed again in
  full and filed under its full digest, and when none of them is, the group keeps its key and
  no file is hashed again.
\<close>

theorem two_phase_hashing:
  assumes "list_all (readable s) files" and "1 < length files"
  shows "hash_candidates sha s cands acc0 = first_pass sha s cands acc0
       \<and> scan_duplicates sha s ed =
           filter (\<lambda>g. 1 < length (snd g))
             (confirm_groups sha s
                (first_pass sha s
                   (files_to_hash (size_walk s ed (os_walk s (BASE_DIR ed)) [])) []) [])
       \<and> (\<forall>fi \<in> set files.
            hash_file sha s (f_full_path fi) True =
              Inr (if f_size fi > LARGE_FILE_THRESHOLD
                   then sha (head_tail (content_of s (f_full_path fi)))
                   else sha (content_of s (f_full_path fi))))
       \<and> (list_all (\<lambda>fi. f_size fi > LARGE_FILE_THRESHOLD) files \<longrightarrow>
            confirm_groups sha s ((h, files) # gs) acc =
              confirm_groups sha s gs
                (foldl (\<lambda>d fi. dict_append d (sha (content_of s (f_full_path fi))) fi) acc files))
       \<and> (list_all (\<lambda>fi. f_size fi \<le> LARGE_FILE_THRESHOLD) files \<longrightarrow>
            confirm_groups sha s ((h, files) # gs) acc =
              confirm_groups sha s gs (AList.update h files acc))"
proof (intro conjI ballI impI)
  show "hash_candidates sha s cands acc0 = first_pass sha s cands acc0"
    by (rule hash_candidates_first_pass)
next
  show "scan_duplicates sha s ed =
           filter (\<lambda>g. 1 < length (snd g))
             (confirm_groups sha s
                (first_pass sha s
                   (files_to_hash (size_walk s ed (os_walk s (BASE_DIR ed)) [])) []) [])"
    by (simp add: scan_duplicates_def Let_def hash_candidates_first_pass)
next
  fix fi assume "fi \<in> set files"
  with assms(1) have "readable s fi" by (simp add: list_all_iff)
  then obtain c where c: "stat s (f_full_path fi) = Some (File c)" and sz: "f_size fi = length c"
    by (auto simp: readable_def split: option.splits node.splits)
  then show "hash_file sha s (f_full_path fi) True =
              Inr (if f_size fi > LARGE_FILE_THRESHOLD
                   then sha (head_tail (content_of s (f_full_path fi)))
                   else sha (content_of s (f_full_path fi)))"
    by (simp add: hash_file_of_content content_of_def)
next
  assume large: "list_all (\<lambda>fi. f_size fi > LARGE_FILE_THRESHOLD) files"
  from assms(2) obtain fi rest where files: "files = fi # rest" by (cases files) auto
  with large have "f_size (hd files) > LARGE_FILE_THRESHOLD" by simp
  with assms show "confirm_groups sha s ((h, files) # gs) acc =
              confirm_groups sha s gs
                (foldl (\<lambda>d fi. dict_append d (sha (content_of s (f_full_path fi))) fi) acc files)"
    by (simp add: full_hash_group_readable)
next
  assume small: "list_all (\<lambda>fi. f_size fi \<le> LARGE_FILE_THRESHOLD) files"
  from assms(2) obtain fi rest where files: "files = fi # rest" by (cases files) auto
  with small have "\<not> f_size (hd files) > LARGE_FILE_THRESHOLD" by simp
  with assms show "confirm_groups sha s ((h, files) # gs) acc =
              confirm_groups sha s gs (AList.update h files acc)"
    by simp
qed

text \<open>
  The three files of 102 MiB are size-matched candidates and the first pass files them
  under the one digest of their first and last 1 MiB; hashed again in full they fall into two
  groups, and the scan reports the group of the two identical files (the digest is the
  identity here, so that the keys show the bytes that were hashed).
\<close>

theorem two_phase_hashing_witness:
  "list_all (readable large_trio) [l1_info, l2_info, l3_info]
   \<and> 1 < length [l1_info, l2_info, l3_info]
   \<and> list_all (\<lambda>fi. f_size fi > LARGE_FILE_THRESHOLD) [l1_info, l2_info, l3_info]
   \<and> hash_candidates (\<lambda>b. b) large_trio
       [(''big/l1.bin'', ''/opt/app/homedrive_storage/big/l1.bin''),
        (''big/l2.bin'', ''/opt/app/homedrive_storage/big/l2.bin''),
        (''big/l3.bin'', ''/opt/app/homedrive_storage/big/l3.bin'')] []
       = [(small_bytes, [l1_info, l2_info, l3_info])]
   \<and> hash_file (\<lambda>b. b) large_trio (f_full_path l1_info) True = Inr small_bytes
   \<and> hash_file (\<lambda>b. b) large_trio (f_full_path l2_info) True = Inr small_bytes
   \<and> confirm_groups (\<lambda>b. b) large_trio [(small_bytes, [l1_info, l2_info, l3_info])] [] =
         [(large_x, [l1_info, l3_info]), (large_y, [l2_info])]
   \<and> scan_duplicates (\<lambda>b. b) large_trio ''/opt/app'' = [(large_x, [l1_info, l3_info])]"
proof -
  let ?files = "[l1_info, l2_info, l3_info]"
  let ?cands = "[(''big/l1.bin'', ''/opt/app/homedrive_storage/big/l1.bin''),
                 (''big/l2.bin'', ''/opt/app/homedrive_storage/big/l2.bin''),
                 (''big/l3.bin'', ''/opt/app/homedrive_storage/big/l3.bin'')]"
  have r: "list_all (readable large_trio) ?files"
    by (simp add: readable_def l1_info_def l2_info_def l3_info_def stat_large_trio length_large)
  have n: "1 < length ?files"
    by simp
  have l: "list_all (\<lambda>fi. f_size fi > LARGE_FILE_THRESHOLD) ?files"
    by (simp add: l1_info_def l2_info_def l3_info_def LARGE_FILE_THRESHOLD_def)
  have c: "content_of large_trio (f_full_path l1_info) = large_x"
          "content_of large_trio (f_full_path l2_info) = large_y"
          "content_of large_trio (f_full_path l3_info) = large_x"
    by (simp_all add: content_of_def l1_info_def l2_info_def l3_info_def stat_large_trio)
  note t = two_phase_hashing [OF r n, of "\<lambda>b. b" ?cands "[]" "''/opt/app''" small_bytes "[]" "[]"]
  from t have hc: "hash_candidates (\<lambda>b. b) large_trio ?cands [] = [(small_bytes, ?files)]"
    by (simp only: first_pass_large_trio)
  from t l c large_x_neq_y
  have hf: "hash_file (\<lambda>b. b) large_trio (f_full_path l1_info) True = Inr small_bytes"
    "hash_file (\<lambda>b. b) large_trio (f_full_path l2_info) True = Inr small_bytes"
    by (simp_all add: head_tail_large)
  from t l c large_x_neq_y
  have cg: "confirm_groups (\<lambda>b. b) large_trio [(small_bytes, ?files)] [] =
         [(large_x, [l1_info, l3_info]), (large_y, [l2_info])]"
    by simp
  from t have "scan_duplicates (\<lambda>b. b) large_trio ''/opt/app'' =
      filter (\<lambda>g. 1 < length (snd g))
        (confirm_groups (\<lambda>b. b) large_trio [(small_bytes, ?files)] [])"
    by (simp only: candidates_large_trio first_pass_large_trio)
  with cg have sd: "scan_duplicates (\<lambda>b. b) large_trio ''/opt/app'' = [(large_x, [l1_info, l3_info])]"
    by simp
  from r n l hc hf cg sd show ?thesis by simp
qed

text \<open>
  C5 as stated fails at the threshold itself: a file of exactly 100 MiB is hashed in full by
  \<open>hash_file(path, partial=True)\<close>, not over its first and last 1 MiB (the digest is the
  identity here, so that the result shows the bytes that were hashed).
\<close>

theorem threshold_file_hashed_in_full:
  "os_path_getsize threshold_file ''/opt/app/homedrive_storage/disk.img'' = Inr LARGE_FILE_THRESHOLD
   \<and> hash_file (\<lambda>b. b) threshold_file ''/opt/app/homedrive_storage/disk.img'' True
       = Inr (replicate 104857600 CHR ''a'')
   \<and> hash_file (\<lambda>b. b) threshold_file ''/opt/app/homedrive_storage/disk.img'' True
       \<noteq> Inr (head_tail (replicate 104857600 CHR ''a''))"
proof -
  have st: "stat threshold_file ''/opt/app/homedrive_storage/disk.img''
              = Some (File (replicate 104857600 CHR ''a''))"
    by (simp add: threshold_file_def fs_defs)
  have sz: "os_path_getsize threshold_file ''/opt/app/homedrive_storage/disk.img''
              = Inr LARGE_FILE_THRESHOLD"
    by (simp add: os_path_getsize_def st LARGE_FILE_THRESHOLD_def)
  have h: "hash_file (\<lambda>b. b) threshold_file ''/opt/app/homedrive_storage/disk.img'' True
       = Inr (replicate 104857600 CHR ''a'')"
    by (simp add: hash_file_of_content [OF st] LARGE_FILE_THRESHOLD_def)
  have len: "length (head_tail (replicate 104857600 CHR ''a'')) = 2097152"
    by (simp add: head_tail_def PARTIAL_HASH_SIZE_def)
  have "head_tail (replicate 104857600 CHR ''a'') \<noteq> replicate 104857600 CHR ''a''"
  proof
    assume "head_tail (replicate 104857600 CHR ''a'') = replicate 104857600 CHR ''a''"
    then have "length (head_tail (replicate 104857600 CHR ''a''))
                 = length (replicate 104857600 CHR ''a'')"
      by (rule arg_cong)
    with len show False by simp
  qed
  with sz h show ?thesis by simp
qed

section \<open>Duplicate detection\<close>

text \<open>
  C4. In \<open>mixed_tree\<close> the two files of 102 MiB have the same size and differ, so they
  must be in no duplicate group. The scan files all four files under the digest of the small
  files' content, because the groups are keyed by digest alone and the decision to hash in
  full looks at the first file of the group only, which is a small one; the one group
  reported holds the two differing large files. This holds for every digest function.
\<close>

theorem scan_reports_differing_large_files:
  "large_x \<noteq> large_y \<and> length large_x = length large_y
   \<and> scan_duplicates sha mixed_tree ''/opt/app'' =
        [(sha small_bytes, [s1_info, s2_info, l1_info, l2_info])]"
  by (simp add: large_x_neq_y length_large)
     (simp add: scan_duplicates_def sizes_mixed_tree files_to_hash_def partial_hash_mixed
      getsize_mixed LARGE_FILE_THRESHOLD_def s1_info_def s2_info_def l1_info_def l2_info_def)

section \<open>Free space\<close>

lemma upload_name_a_txt: "upload_name \<lparr>filename = ''a.txt'', stream = st\<rparr> [] None = Inr (''a.txt'', [])"
  by (simp add: upload_name_def name_defs)

lemma splitext_a_txt: "os_path_splitext ''a.txt'' = (''a'', ''.txt'')"
  by (simp add: os_path_splitext_def tail_of_def)

lemma full_path_a_txt:
  "full_path_of ''/opt/app'' ''a.txt'' = Inr ''/opt/app/homedrive_storage/a.txt''"
  by (simp add: guard_defs path_defs)

lemma dirname_a_txt:
  "os_path_dirname ''/opt/app/homedrive_storage/a.txt'' = ''/opt/app/homedrive_storage''"
  by (simp add: path_defs)

lemma low_space_paths:
  "os_path_exists low_space ''/opt/app/homedrive_storage''"
  "\<not> os_path_exists low_space ''/opt/app/homedrive_storage/a.txt''"
  by (simp_all add: low_space_def fs_defs)

lemma low_space_commit:
  "write_and_commit low_space ''a.txt'' ''/opt/app/homedrive_storage/a.txt'' [Chunk ''helloworld'']
     = (Inr ''a.txt'',
        low_space\<lparr>nodes := nodes low_space @
                      [([''opt'', ''app'', ''homedrive_storage'', ''a.txt''], File ''helloworld'')],
                    disk_free := 52428790\<rparr>)"
  by (simp add: write_and_commit_def write_then_rename_def low_space_def fs_defs)

text \<open>
  C6. \<open>save_uploaded_file\<close> never calls \<open>has_space_for_upload\<close>: with 50 MiB free, an
  upload of 10 bytes leaves less than the margin of 100 MiB, \<open>has_space_for_upload\<close> is
  false for it, and the upload is accepted and written.
\<close>

theorem upload_accepted_below_margin:
  "has_space_for_upload low_space 10 = False
   \<and> save_uploaded_file low_space ''/opt/app'' ten_bytes [] None =
       Some (Inr ''a.txt'',
             low_space\<lparr>nodes := nodes low_space @
                      [([''opt'', ''app'', ''homedrive_storage'', ''a.txt''], File ''helloworld'')],
                    disk_free := 52428790\<rparr>)"
proof -
  have "has_space_for_upload low_space 10 = False"
    by (simp add: has_space_for_upload_def low_space_def MIN_FREE_SPACE_def)
  moreover have "free_upload_name low_space ''/opt/app'' [] ''a'' ''.txt'' 1
                   (''a.txt'', ''/opt/app/homedrive_storage/a.txt'')
                 = Some (Inr (''a.txt'', ''/opt/app/homedrive_storage/a.txt''))"
    by (subst free_upload_name.simps) (simp add: low_space_paths)
  ultimately show ?thesis
    by (simp add: save_uploaded_file_def prepare_upload_def ten_bytes_def upload_name_a_txt
        MAX_FILENAME_LENGTH_def
        full_path_a_txt dirname_a_txt low_space_paths splitext_a_txt low_space_commit Let_def)
qed

section \<open>Trash round trip\<close>

lemma str_nat_1700000000: "str_nat 1700000000 = ''1700000000''"
  by (simp add: str_nat.simps digit_char_def)

lemma trash_dir_app: "TRASH_DIR ''/opt/app'' = ''/opt/app/homedrive_storage/.trash''"
  by (simp add: path_defs)

lemma base_dir_app: "BASE_DIR ''/opt/app'' = ''/opt/app/homedrive_storage''"
  by (simp add: path_defs)

lemma full_path_docs_slash:
  "full_path_of ''/opt/app'' ''Docs/'' = Inr ''/opt/app/homedrive_storage/Docs/''"
  by (simp add: guard_defs path_defs)

lemma docs_slash_names:
  "os_path_basename ''/opt/app/homedrive_storage/Docs/'' = []"
  "os_path_dirname ''/opt/app/homedrive_storage/Docs/'' = ''/opt/app/homedrive_storage/Docs''"
  "os_path_splitext ''/opt/app/homedrive_storage/Docs/'' = (''/opt/app/homedrive_storage/Docs/'', [])"
  "os_path_join ''/opt/app/homedrive_storage/.trash'' ''item_1700000000_''
     = ''/opt/app/homedrive_storage/.trash/item_1700000000_''"
  by (simp_all add: path_defs)

lemma docs_tree_facts:
  "os_path_exists docs_tree ''/opt/app/homedrive_storage/Docs/''"
  "\<not> os_path_exists docs_tree ''/opt/app/homedrive_storage/.trash''"
  "os_makedirs docs_tree ''/opt/app/homedrive_storage/.trash'' False = (None, docs_trash_made)"
  by (simp_all add: docs_tree_def docs_trash_made_def fs_defs)

lemma docs_trash_made_facts:
  "\<not> os_path_exists docs_trash_made ''/opt/app/homedrive_storage/.trash/item_1700000000_''"
  "shutil_move docs_trash_made ''/opt/app/homedrive_storage/Docs/''
     ''/opt/app/homedrive_storage/.trash/item_1700000000_'' = (None, docs_moved)"
  by (simp_all add: docs_trash_made_def docs_moved_def shutil_move_def rename_or_copy_def
      fs_defs rekey_def)

lemma docs_moved_facts:
  "os_path_isdir docs_moved ''/opt/app/homedrive_storage/.trash/item_1700000000_''"
  "get_dir_size docs_moved ''/opt/app/homedrive_storage/.trash/item_1700000000_'' = 4"
  "os_path_exists docs_moved ''/opt/app/homedrive_storage/.trash''"
  "os_path_isdir docs_moved ''/opt/app/homedrive_storage/.trash''"
  "load_trash_manifest docs_moved ''/opt/app'' = Inr (Manifest [])"
  by (simp_all add: docs_moved_def fs_defs get_dir_size_def subtree_bytes_def subtree_def
      file_bytes_def load_trash_manifest_def manifest_exists_def trash_dir_app)

lemma docs_move_to_trash:
  "move_to_trash docs_tree ''/opt/app'' 1700000000 ''Docs/''
     = Some (Inr ''item_1700000000_'', docs_trashed)"
proof -
  have name: "free_trash_name docs_trash_made ''/opt/app'' 1700000000 [] (Suc 0)
                (''item_1700000000_'', ''/opt/app/homedrive_storage/.trash/item_1700000000_'')
              = Some (''item_1700000000_'', ''/opt/app/homedrive_storage/.trash/item_1700000000_'')"
    by (subst free_trash_name.simps) (simp add: docs_trash_made_facts)
  have save: "save_trash_manifest docs_moved ''/opt/app'' (Manifest [docs_item])
                = (None, docs_trashed)"
    by (simp add: save_trash_manifest_def trash_dir_app docs_moved_facts docs_trashed_def)
  have rec: "trash_and_record docs_trash_made ''/opt/app'' 1700000000 ''Docs/''
               ''/opt/app/homedrive_storage/Docs/'' [] ''item_1700000000_''
               ''/opt/app/homedrive_storage/.trash/item_1700000000_''
             = (Inr ''item_1700000000_'', docs_trashed)"
    by (simp add: trash_and_record_def docs_trash_made_facts docs_moved_facts items_of_def
        save [unfolded docs_item_def])
  show ?thesis
    by (simp add: move_to_trash_def full_path_docs_slash docs_tree_facts trash_dir_app
        docs_slash_names str_nat_1700000000 name rec Let_def)
qed

lemma docs_trashed_facts:
  "load_trash_manifest docs_trashed ''/opt/app'' = Inr (Manifest [docs_item])"
  "os_path_exists docs_trashed ''/opt/app/homedrive_storage/.trash/item_1700000000_''"
  "\<not> os_path_exists docs_trashed ''/opt/app/homedrive_storage/Docs/''"
  "\<not> os_path_exists docs_trashed ''/opt/app/homedrive_storage/Docs''"
  "os_makedirs docs_trashed ''/opt/app/homedrive_storage/Docs'' False = (None, docs_parent_made)"
  by (simp_all add: docs_trashed_def docs_moved_def docs_parent_made_def fs_defs
      load_trash_manifest_def manifest_exists_def read_manifest_def trash_dir_app)

lemma docs_parent_made_facts:
  "shutil_move docs_parent_made ''/opt/app/homedrive_storage/.trash/item_1700000000_''
     ''/opt/app/homedrive_storage/Docs/''
   = (None, docs_restored\<lparr>manifest_file := Parsed (Manifest [docs_item])\<rparr>)"
  by (simp add: docs_parent_made_def docs_trashed_def docs_moved_def docs_restored_def
      shutil_move_def rename_or_copy_def fs_defs rekey_def path_defs)

lemma docs_restore:
  "restore_from_trash docs_trashed ''/opt/app'' ''item_1700000000_''
     = Some (Inr ''Docs'', docs_restored)"
proof -
  have free: "free_restore_path docs_trashed ''/opt/app/homedrive_storage/Docs/'' [] (Suc 0)
                ''/opt/app/homedrive_storage/Docs/'' = Some ''/opt/app/homedrive_storage/Docs/''"
    by (subst free_restore_path.simps) (simp add: docs_trashed_facts)
  have save: "save_trash_manifest (docs_restored\<lparr>manifest_file := Parsed (Manifest [docs_item])\<rparr>)
                ''/opt/app'' (Manifest []) = (None, docs_restored)"
    by (simp add: save_trash_manifest_def trash_dir_app docs_restored_def fs_defs)
  have rel: "os_path_relpath ''/opt/app/homedrive_storage/Docs/'' ''/opt/app/homedrive_storage''
               = ''Docs''"
    by (simp add: os_path_relpath_def)
  have found: "find_item ''item_1700000000_'' [docs_item] 0 = Some (docs_item, 0)"
    by (simp add: docs_item_def)
  have orig: "original_path docs_item = ''Docs/''"
    "trash_name docs_item = ''item_1700000000_''"
    by (simp_all add: docs_item_def)
  show ?thesis
    by (simp add: restore_from_trash_def docs_trashed_facts items_of_def found orig
        trash_dir_app base_dir_app docs_slash_names full_path_docs_slash free
        docs_parent_made_facts pop_at_def save rel Let_def)
qed

text \<open>
  C3. The folder \<open>Docs\<close> is addressed as \<open>Docs/\<close>. \<open>move_to_trash\<close> succeeds and
  returns the trash name \<open>item_1700000000_\<close> (the base name of a path that ends in a slash
  is empty). \<open>restore_from_trash\<close> of that name finds no collision, creates
  \<open>os.path.dirname(restore_path)\<close>, which is \<open>Docs\<close> itself, and \<open>shutil.move\<close> then
  moves the object into that directory: the folder's content comes back at
  \<open>Docs/item_1700000000_/report.pdf\<close>, not at \<open>Docs/report.pdf\<close>, while the path returned
  is \<open>Docs\<close>.
\<close>

theorem trailing_slash_round_trip:
  "os_path_isdir docs_tree ''/opt/app/homedrive_storage/Docs/''
   \<and> stat docs_tree ''/opt/app/homedrive_storage/Docs/report.pdf'' = Some (File ''%PDF'')
   \<and> move_to_trash docs_tree ''/opt/app'' 1700000000 ''Docs/''
       = Some (Inr ''item_1700000000_'', docs_trashed)
   \<and> restore_from_trash docs_trashed ''/opt/app'' ''item_1700000000_''
       = Some (Inr ''Docs'', docs_restored)
   \<and> stat docs_restored ''/opt/app/homedrive_storage/Docs/report.pdf'' = None
   \<and> stat docs_restored ''/opt/app/homedrive_storage/Docs/item_1700000000_/report.pdf''
       = Some (File ''%PDF'')"
proof -
  have "os_path_isdir docs_tree ''/opt/app/homedrive_storage/Docs/''"
       "stat docs_tree ''/opt/app/homedrive_storage/Docs/report.pdf'' = Some (File ''%PDF'')"
    by (simp_all add: docs_tree_def fs_defs)
  moreover have "stat docs_restored ''/opt/app/homedrive_storage/Docs/report.pdf'' = None"
    "stat docs_restored ''/opt/app/homedrive_storage/Docs/item_1700000000_/report.pdf''
       = Some (File ''%PDF'')"
    by (simp_all add: docs_restored_def fs_defs)
  ultimately show ?thesis
    using docs_move_to_trash docs_restore by simp
qed

section \<open>Locations of the storage paths\<close>

lemma split_on_nonempty: "split_on c s \<noteq> []"
  by (induction s) (auto split: list.splits)

lemma split_on_append: "split_on c (a @ c # b) = split_on c a @ split_on c b"
proof (induction a)
  case Nil
  then show ?case by simp
next
  case (Cons x a)
  then show ?case
    using split_on_nonempty [of c a] by (auto split: list.splits)
qed

lemma split_on_plain: "c \<notin> set n \<Longrightarrow> split_on c n = [n]"
  by (induction n) (auto split: list.splits)

lemma namei_append:
  "namei t cur (xs @ ys) = (case namei t cur xs of None \<Rightarrow> None | Some k \<Rightarrow> namei t k ys)"
  by (induction xs arbitrary: cur) auto

lemma namei_plain_result:
  "list_all plain cs \<Longrightarrow> namei t cur cs = Some k \<Longrightarrow> k = cur @ cs"
proof (induction cs arbitrary: cur)
  case Nil
  then show ?case by simp
next
  case (Cons a cs)
  from Cons.prems have "namei t (cur @ [a]) cs = Some k"
    by (auto simp: plain_def split: if_splits)
  moreover from Cons.prems have "list_all plain cs" by simp
  ultimately have "k = (cur @ [a]) @ cs" by (rule Cons.IH [rotated])
  then show ?case by simp
qed

lemma namei_single:
  "plain n \<Longrightarrow> namei t cur [n] = (if lookup t cur = Some Dir then Some (cur @ [n]) else None)"
  by (simp add: plain_def)

text \<open>Path lookup only depends on which locations are directories.\<close>

lemma namei_cong:
  assumes "\<And>k. (lookup t k = Some Dir) = (lookup t' k = Some Dir)"
  shows "namei t cur cs = namei t' cur cs"
  using assms by (induction cs arbitrary: cur) auto

lemma map_of_filter_key:
  "map_of (filter (\<lambda>e. P (fst e)) xs) k = (if P k then map_of xs k else None)"
  by (induction xs) auto

lemma delete_as_filter: "AList.delete k xs = filter (\<lambda>e. fst e \<noteq> k) xs"
  by (induction xs) auto

lemma namei_plain:
  "list_all plain cs \<Longrightarrow>
     namei t cur cs =
       (if list_all (\<lambda>i. lookup t (cur @ take i cs) = Some Dir) [0..<length cs]
        then Some (cur @ cs) else None)"
proof (induction cs arbitrary: cur)
  case Nil
  then show ?case by simp
next
  case (Cons a cs)
  from Cons.prems have a: "a \<noteq> []" "a \<noteq> ''.''" "a \<noteq> ''..''"
    by (simp_all add: plain_def)
  from Cons.prems have cs: "list_all plain cs"
    by simp
  have e: "[0..<length (a # cs)] = 0 # map Suc [0..<length cs]"
    by (simp only: length_Cons upt_conv_Cons [OF zero_less_Suc] map_Suc_upt)
  have "list_all (\<lambda>i. lookup t (cur @ take i (a # cs)) = Some Dir) [0..<length (a # cs)]
          = (lookup t cur = Some Dir
             \<and> list_all (\<lambda>i. lookup t ((cur @ [a]) @ take i cs) = Some Dir) [0..<length cs])"
    by (subst e) (simp add: list.pred_map comp_def)
  with a Cons.IH [OF cs, of "cur @ [a]"] show ?case by simp
qed

lemma endswith_single: "endswith s [c] \<Longrightarrow> s \<noteq> [] \<and> last s = c"
  by (cases s rule: rev_cases) (auto simp: endswith_def)

lemma endswith_slash_split: "endswith p ''/'' \<Longrightarrow> last (split_on CHR ''/'' p) = []"
proof -
  assume "endswith p ''/''"
  then have "p \<noteq> [] \<and> last p = CHR ''/''" by (rule endswith_single)
  then have "p = butlast p @ [CHR ''/'']"
    by (metis append_butlast_last_id)
  then have "split_on CHR ''/'' p = split_on CHR ''/'' (butlast p) @ [[]]"
    using split_on_append [of "CHR ''/''" "butlast p" "[]"] by simp
  then show ?thesis by simp
qed

lemma abs_normal_split:
  assumes "abs_normal ed"
  shows "split_on CHR ''/'' ed = [] # tl (split_on CHR ''/'' ed)"
    and "list_all plain (tl (split_on CHR ''/'' ed))"
    and "ed \<noteq> []" and "\<not> endswith ed ''/''" and "\<not> startswith ''homedrive_storage'' ''/''"
proof -
  from assms obtain comps where s: "split_on CHR ''/'' ed = [] # comps"
    and c: "comps \<noteq> []" "list_all plain comps"
    by (auto simp: abs_normal_def split: list.splits)
  then show "split_on CHR ''/'' ed = [] # tl (split_on CHR ''/'' ed)"
    and "list_all plain (tl (split_on CHR ''/'' ed))" by simp_all
  from s c show "ed \<noteq> []" by auto
  show "\<not> endswith ed ''/''"
  proof
    assume "endswith ed ''/''"
    then have "last (split_on CHR ''/'' ed) = []" by (rule endswith_slash_split)
    with s c have "last comps = []" by simp
    with c have "plain []" by (metis last_in_set list_all_iff)
    then show False by (simp add: plain_def)
  qed
  show "\<not> startswith ''homedrive_storage'' ''/''" by (simp add: startswith_def)
qed

lemma plain_storage_names: "plain ''homedrive_storage''" "plain ''.trash''" "plain ''_duplicates''"
  by (simp_all add: plain_def)

lemma join_plain:
  assumes "X \<noteq> []" "\<not> endswith X ''/''" "plain n"
  shows "os_path_join X n = X @ CHR ''/'' # n"
    and "split_on CHR ''/'' (os_path_join X n) = split_on CHR ''/'' X @ [n]"
    and "os_path_join X n \<noteq> []" and "\<not> endswith (os_path_join X n) ''/''"
proof -
  from assms(3) have n: "n \<noteq> []" "CHR ''/'' \<notin> set n" by (simp_all add: plain_def)
  then have "\<not> startswith n ''/''" by (cases n) (auto simp: startswith_def)
  with assms show j: "os_path_join X n = X @ CHR ''/'' # n" by (simp add: os_path_join_def)
  with n show "split_on CHR ''/'' (os_path_join X n) = split_on CHR ''/'' X @ [n]"
    by (simp add: split_on_append split_on_plain)
  from j show "os_path_join X n \<noteq> []" by simp
  show "\<not> endswith (os_path_join X n) ''/''"
  proof
    assume "endswith (os_path_join X n) ''/''"
    then have "last (os_path_join X n) = CHR ''/''" by (simp add: endswith_single)
    with j n have "last n = CHR ''/''" by simp
    with n show False using last_in_set [of n] by simp
  qed
qed

lemma parents_ok_snoc:
  "parents_ok t (k @ [n]) = (parents_ok t k \<and> lookup t k = Some Dir)"
  by (auto simp: parents_ok_def list_all_iff less_Suc_eq)

lemma locate_plain:
  assumes "split_on CHR ''/'' p = [] # cs" and "list_all plain cs" and "cs \<noteq> []"
  shows "locate s p = (if parents_ok (nodes s) cs then Some cs else None)"
proof -
  from assms(1,3) have "p \<noteq> []" by auto
  moreover have "lookup (nodes s) [] = Some Dir" by (simp add: lookup_def)
  ultimately show ?thesis
    using assms namei_plain [OF assms(2), of "nodes s" "[]"]
    by (simp add: locate_def parents_ok_def)
qed

lemma storage_paths:
  assumes "abs_normal ed"
  shows "split_on CHR ''/'' (BASE_DIR ed) = [] # storage_loc ed"
    and "split_on CHR ''/'' (TRASH_DIR ed) = [] # trash_loc ed"
    and "list_all plain (storage_loc ed)" and "list_all plain (trash_loc ed)"
    and "TRASH_DIR ed \<noteq> []" and "\<not> endswith (TRASH_DIR ed) ''/''"
    and "BASE_DIR ed \<noteq> []" and "\<not> endswith (BASE_DIR ed) ''/''"
proof -
  note e = abs_normal_split [OF assms]
  note b = join_plain [OF e(3) e(4) plain_storage_names(1), folded BASE_DIR_def]
  note t = join_plain [OF b(3) b(4) plain_storage_names(2), folded TRASH_DIR_def]
  from b(2) e(1) show "split_on CHR ''/'' (BASE_DIR ed) = [] # storage_loc ed"
    by (simp add: storage_loc_def)
  with t(2) show "split_on CHR ''/'' (TRASH_DIR ed) = [] # trash_loc ed"
    by (simp add: trash_loc_def)
  from e(2) show "list_all plain (storage_loc ed)"
    by (simp add: storage_loc_def plain_storage_names)
  then show "list_all plain (trash_loc ed)"
    by (simp add: trash_loc_def plain_storage_names)
  from t b show "TRASH_DIR ed \<noteq> []" "\<not> endswith (TRASH_DIR ed) ''/''"
    "BASE_DIR ed \<noteq> []" "\<not> endswith (BASE_DIR ed) ''/''" by simp_all
qed

lemma trash_loc_nonempty: "trash_loc ed \<noteq> []" "storage_loc ed \<noteq> []"
  by (simp_all add: trash_loc_def storage_loc_def)

lemma locate_trash_dir:
  "abs_normal ed \<Longrightarrow>
     locate s (TRASH_DIR ed) = (if parents_ok (nodes s) (trash_loc ed) then Some (trash_loc ed) else None)"
  by (rule locate_plain) (simp_all add: storage_paths trash_loc_nonempty)

lemma locate_trash_item:
  assumes "abs_normal ed" "plain n"
  shows "locate s (os_path_join (TRASH_DIR ed) n) =
           (if parents_ok (nodes s) (trash_loc ed) \<and> lookup (nodes s) (trash_loc ed) = Some Dir
            then Some (trash_loc ed @ [n]) else None)"
proof -
  note t = storage_paths [OF assms(1)]
  note j = join_plain [OF t(5) t(6) assms(2)]
  have "locate s (os_path_join (TRASH_DIR ed) n) =
          (if parents_ok (nodes s) (trash_loc ed @ [n]) then Some (trash_loc ed @ [n]) else None)"
    by (rule locate_plain) (simp_all add: j(2) t assms)
  then show ?thesis by (simp add: parents_ok_snoc)
qed

lemma trash_dir_status:
  assumes "abs_normal ed"
  shows "os_path_isdir s (TRASH_DIR ed) = trash_ok s ed"
  by (auto simp: os_path_isdir_def stat_def locate_trash_dir [OF assms] trash_ok_def)

lemma lookup_filter:
  "lookup (filter (\<lambda>e. P (fst e)) t) k = (if k = [] \<or> P k then lookup t k else None)"
  by (simp add: lookup_def map_of_filter_key)

lemma lookup_delete:
  "lookup (AList.delete q t) k = (if k \<noteq> [] \<and> k = q then None else lookup t k)"
  by (simp add: lookup_def AList.delete_conv')

lemma not_under_shorter: "length k < length q \<Longrightarrow> \<not> is_under q k"
  by (auto simp: is_under_def)

lemma under_same_length: "length k = length q \<Longrightarrow> is_under q k = (k = q)"
  by (auto simp: is_under_def)

lemma parents_ok_cong:
  assumes "\<And>i. i < length k \<Longrightarrow> lookup t' (take i k) = lookup t (take i k)"
  shows "parents_ok t' k = parents_ok t k"
  using assms by (auto simp: parents_ok_def list_all_iff)

lemma trash_ok_after_removal:
  assumes "\<And>k. length k \<le> length (trash_loc ed) \<Longrightarrow> lookup (nodes s') k = lookup (nodes s) k"
  shows "trash_ok s' ed = trash_ok s ed"
proof -
  have "parents_ok (nodes s') (trash_loc ed) = parents_ok (nodes s) (trash_loc ed)"
    by (rule parents_ok_cong) (simp add: assms)
  with assms [of "trash_loc ed"] show ?thesis by (simp add: trash_ok_def)
qed

lemma trash_dir_after_removal:
  assumes "abs_normal ed"
    and "\<And>k. length k \<le> length (trash_loc ed) \<Longrightarrow> lookup (nodes s') k = lookup (nodes s) k"
  shows "os_path_exists s' (TRASH_DIR ed) = os_path_exists s (TRASH_DIR ed)"
proof -
  have "parents_ok (nodes s') (trash_loc ed) = parents_ok (nodes s) (trash_loc ed)"
    by (rule parents_ok_cong) (simp add: assms(2))
  with assms(2) [of "trash_loc ed"] show ?thesis
    by (simp add: os_path_exists_def stat_def locate_trash_dir [OF assms(1)])
qed

lemma save_trash_manifest_ok:
  assumes "abs_normal ed" "os_path_exists s (TRASH_DIR ed)"
  shows "save_trash_manifest s ed m =
           (if trash_ok s ed then (None, s\<lparr>manifest_file := Parsed m\<rparr>) else (Some OSError, s))"
  using assms by (simp add: save_trash_manifest_def trash_dir_status)

lemma abs_normal_app: "abs_normal ''/opt/app''"
  by (simp add: abs_normal_def plain_def)

section \<open>Removing a tree\<close>


lemma listdir_child:
  assumes "c \<in> set (listdir t k)"
  shows "c \<noteq> []" and "butlast c = k" and "\<exists>n. (c, n) \<in> set t"
  using assms by (auto simp: listdir_def)

lemma under_child:
  assumes "is_under (k @ [x]) q"
  shows "is_under k q" and "q \<noteq> k"
proof -
  from assms have t: "take (Suc (length k)) q = k @ [x]" by (simp add: is_under_def)
  then have "take (length k) (take (Suc (length k)) q) = take (length k) (k @ [x])" by simp
  then show "is_under k q" by (simp add: is_under_def min_def)
  show "q \<noteq> k"
  proof
    assume "q = k"
    with t have "length (take (Suc (length k)) k) = length (k @ [x])" by simp
    then show False by simp
  qed
qed



lemma listdir_distinct: "distinct (listdir t k)"
  by (simp add: listdir_def)

lemma listdir_delete: "listdir (AList.delete q t) k = filter (\<lambda>c. c \<noteq> q) (listdir t k)"
proof -
  have "map fst (filter (\<lambda>e. fst e \<noteq> [] \<and> butlast (fst e) = k) (filter (\<lambda>e. fst e \<noteq> q) t))
        = filter (\<lambda>c. c \<noteq> q) (map fst (filter (\<lambda>e. fst e \<noteq> [] \<and> butlast (fst e) = k) t))"
    by (induction t) auto
  then show ?thesis by (simp add: listdir_def delete_as_filter remdups_filter)
qed

lemma listdir_subtree: "listdir (subtree t k) k = listdir t k"
proof -
  have "filter (\<lambda>e. fst e \<noteq> [] \<and> butlast (fst e) = k) (filter (\<lambda>e. is_under k (fst e)) t)
        = filter (\<lambda>e. fst e \<noteq> [] \<and> butlast (fst e) = k) t"
  proof (induction t)
    case Nil
    then show ?case by simp
  next
    case (Cons e t)
    have "is_under k (fst e)" if "fst e \<noteq> []" "butlast (fst e) = k"
    proof -
      from that have "fst e = k @ [last (fst e)]" by (metis append_butlast_last_id)
      then have "take (length k) (fst e) = k" by (metis append_eq_conv_conj)
      then show ?thesis by (simp add: is_under_def)
    qed
    with Cons show ?case by auto
  qed
  then show ?thesis by (simp add: listdir_def subtree_def)
qed

lemma rm_order_nonempty: "rm_order t k \<noteq> []"
  by (subst rm_order.simps) simp

lemma rm_order_last: "last (rm_order t k) = k"
  by (subst rm_order.simps) simp

lemma rm_order_mem:
  "q \<in> set (rm_order t k) \<longleftrightarrow>
     q = k \<or> (\<exists>c \<in> set (listdir t k).
                 if lookup t c = Some Dir then q \<in> set (rm_order t c) else q = c)"
  by (subst rm_order.simps) (auto split: if_splits)

lemma child_under:
  assumes "c \<in> set (listdir t k)"
  shows "is_under k c" and "c \<noteq> k" and "length c = Suc (length k)"
proof -
  from listdir_child [OF assms] obtain x where c: "c = k @ [x]"
    by (metis append_butlast_last_id)
  then show "is_under k c" "c \<noteq> k" "length c = Suc (length k)"
    by (simp_all add: is_under_def)
qed

lemma under_trans: "is_under a b \<Longrightarrow> is_under b c \<Longrightarrow> is_under a c"
proof -
  assume a: "is_under a b" and b: "is_under b c"
  from a have "length a \<le> length b" by (metis is_under_def length_take min.cobounded2 min.commute)
  from a b have "take (length a) (take (length b) c) = a" by (simp add: is_under_def)
  with \<open>length a \<le> length b\<close> show ?thesis by (simp add: is_under_def min_def)
qed

lemma under_length: "is_under a b \<Longrightarrow> length a \<le> length b"
  by (metis is_under_def length_take min.cobounded2 min.commute)

lemma under_refl: "is_under a a"
  by (simp add: is_under_def)

lemma rm_order_under: "q \<in> set (rm_order t k) \<Longrightarrow> is_under k q"
proof (induction t k arbitrary: q rule: rm_order.induct)
  case (1 t k)
  from 1(2) consider "q = k"
    | c where "c \<in> set (listdir t k)" "lookup t c = Some Dir" "q \<in> set (rm_order t c)"
    | c where "c \<in> set (listdir t k)" "q = c"
    by (subst (asm) rm_order_mem) (auto split: if_splits)
  then show ?case
  proof cases
    case 1
    then show ?thesis by (simp add: under_refl)
  next
    case (2 c)
    from 1(1) [OF 2] child_under(1) [OF 2(1)] show ?thesis by (rule under_trans [rotated])
  next
    case (3 c)
    with child_under(1) show ?thesis by simp
  qed
qed


lemma lookup_subtree: "is_under k q \<Longrightarrow> lookup (subtree t k) q = lookup t q"
  by (simp add: subtree_def lookup_filter [where P = "\<lambda>q. is_under k q"])

lemma subtree_subtree: "is_under k c \<Longrightarrow> subtree (subtree t k) c = subtree t c"
proof -
  assume u: "is_under k c"
  have "filter (\<lambda>e. is_under c (fst e)) (filter (\<lambda>e. is_under k (fst e)) t)
        = filter (\<lambda>e. is_under c (fst e)) t"
    using under_trans [OF u] by (induction t) auto
  then show ?thesis by (simp add: subtree_def)
qed

text \<open>The removal order of a directory depends on what lies below it only.\<close>

lemma rm_order_frame: "subtree t' k = subtree t k \<Longrightarrow> rm_order t' k = rm_order t k"
proof (induction t k arbitrary: t' rule: rm_order.induct)
  case (1 t k)
  note same = 1(2)
  have l: "listdir t' k = listdir t k"
    using listdir_subtree [of t' k] listdir_subtree [of t k] same by simp
  have "(if lookup t' c = Some Dir then rm_order t' c else [c])
        = (if lookup t c = Some Dir then rm_order t c else [c])"
    if c: "c \<in> set (listdir t k)" for c
  proof -
    note u = child_under(1) [OF c]
    have lk: "lookup t' c = lookup t c"
      using lookup_subtree [OF u, of t'] lookup_subtree [OF u, of t] same by simp
    have st: "subtree t' c = subtree t c"
      using subtree_subtree [OF u, of t'] subtree_subtree [OF u, of t] same by simp
    show ?thesis
    proof (cases "lookup t c = Some Dir")
      case True
      with 1(1) [OF c True st] lk show ?thesis by simp
    next
      case False
      with lk show ?thesis by simp
    qed
  qed
  then have m: "map (\<lambda>c. if lookup t' c = Some Dir then rm_order t' c else [c]) (listdir t k)
           = map (\<lambda>c. if lookup t c = Some Dir then rm_order t c else [c]) (listdir t k)"
    by simp
  show ?case
    by (subst rm_order.simps, subst (2) rm_order.simps) (simp only: l m)
qed

lemma subtree_delete_outside:
  "\<not> is_under k q \<Longrightarrow> subtree (AList.delete q t) k = subtree t k"
proof -
  assume "\<not> is_under k q"
  then have "filter (\<lambda>e. is_under k (fst e)) (filter (\<lambda>e. fst e \<noteq> q) t)
             = filter (\<lambda>e. is_under k (fst e)) t"
    by (induction t) auto
  then show ?thesis by (simp add: subtree_def delete_as_filter)
qed

lemma siblings_apart:
  assumes "is_under c q" and "is_under c' q" and "length c = length c'"
  shows "c = c'"
  using assms by (simp add: is_under_def)

lemma rm_order_head_self:
  assumes "rm_order t k = k # r"
  shows "r = []"
proof -
  let ?f = "\<lambda>c. if lookup t c = Some Dir then rm_order t c else [c]"
  from assms have e: "concat (map ?f (listdir t k)) @ [k] = k # r"
    by (subst (asm) rm_order.simps)
  show ?thesis
  proof (cases "concat (map ?f (listdir t k))")
    case Nil
    with e show ?thesis by simp
  next
    case (Cons h rest)
    with e have "h = k" by simp
    moreover from Cons have "h \<in> set (concat (map ?f (listdir t k)))" by simp
    then obtain c where c: "c \<in> set (listdir t k)" and h: "h \<in> set (?f c)" by auto
    from h have "is_under c h"
      by (auto simp: under_refl dest: rm_order_under split: if_splits)
    ultimately have "is_under c k" by simp
    from under_length [OF this] child_under(3) [OF c] show ?thesis by simp
  qed
qed

text \<open>Removing the first entry of the removal order leaves the rest of the order.\<close>

lemma rm_order_step:
  "rm_order t k = q # qs \<Longrightarrow> q \<noteq> k \<Longrightarrow> rm_order (AList.delete q t) k = qs"
proof (induction t k arbitrary: q qs rule: rm_order.induct)
  case (1 t k)
  let ?f = "\<lambda>c. if lookup t c = Some Dir then rm_order t c else [c]"
  let ?t' = "AList.delete q t"
  let ?f' = "\<lambda>c. if lookup ?t' c = Some Dir then rm_order ?t' c else [c]"
  from 1(2) have e: "concat (map ?f (listdir t k)) @ [k] = q # qs"
    by (subst (asm) rm_order.simps)
  with 1(3) obtain c L where cl: "listdir t k = c # L"
    by (cases "listdir t k") auto
  then have c: "c \<in> set (listdir t k)" by simp
  from listdir_distinct [of t k] cl have cL: "c \<notin> set L" by simp
  have fne: "?f c \<noteq> []" by (simp add: rm_order_nonempty)
  then obtain r where fc: "?f c = q # r" and qs: "qs = r @ concat (map ?f L) @ [k]"
    using e cl by (cases "?f c") auto
  have others: "?f' c' = ?f c'" if c': "c' \<in> set L" and nq: "\<not> is_under c' q" for c'
  proof -
    from nq have "q \<noteq> c'" by (auto simp: under_refl)
    then have "lookup ?t' c' = lookup t c'" by (simp add: lookup_delete)
    moreover have "rm_order ?t' c' = rm_order t c'"
      by (rule rm_order_frame) (rule subtree_delete_outside [OF nq])
    ultimately show ?thesis by simp
  qed
  show ?case
  proof (cases "q = c")
    case True
    have r: "r = []"
    proof (cases "lookup t c = Some Dir")
      case True
      with fc \<open>q = c\<close> have "rm_order t c = c # r" by simp
      then show ?thesis by (rule rm_order_head_self)
    next
      case False
      with fc show ?thesis by simp
    qed
    have l': "listdir ?t' k = L"
      using cL by (auto simp: listdir_delete cl True filter_id_conv)
    have "?f' c' = ?f c'" if c': "c' \<in> set L" for c'
    proof (rule others [OF c'])
      from c' cl have "c' \<in> set (listdir t k)" by simp
      from child_under(3) [OF this] child_under(3) [OF c]
      have "length c' = length c" by simp
      moreover from c' cL have "c' \<noteq> c" by auto
      ultimately show "\<not> is_under c' q"
        using True by (auto simp: under_same_length)
    qed
    then have m: "map ?f' L = map ?f L" by simp
    have "rm_order ?t' k = concat (map ?f L) @ [k]"
      by (subst rm_order.simps) (simp only: l' m)
    with qs r show ?thesis by simp
  next
    case False
    with fc have dir: "lookup t c = Some Dir" and rc: "rm_order t c = q # r"
      by (auto split: if_splits)
    from 1(1) [OF c dir rc False] have ih: "rm_order ?t' c = r" .
    from rc have qc: "is_under c q" using rm_order_under [of q t c] by simp
    have len: "Suc (length k) < length q"
    proof -
      from under_length [OF qc] child_under(3) [OF c] have "Suc (length k) \<le> length q" by simp
      moreover have "length q \<noteq> length c"
      proof
        assume "length q = length c"
        with qc have "q = c" by (simp add: under_same_length)
        with False show False by simp
      qed
      ultimately show ?thesis using child_under(3) [OF c] by simp
    qed
    have "q \<notin> set (listdir t k)"
    proof
      assume "q \<in> set (listdir t k)"
      from child_under(3) [OF this] len show False by simp
    qed
    then have l': "listdir ?t' k = c # L"
      by (auto simp: listdir_delete cl [symmetric] filter_id_conv)
    from False dir have dir': "lookup ?t' c = Some Dir" by (simp add: lookup_delete)
    have "?f' c' = ?f c'" if c': "c' \<in> set L" for c'
    proof (rule others [OF c'])
      from c' cl have m: "c' \<in> set (listdir t k)" by simp
      show "\<not> is_under c' q"
      proof
        assume "is_under c' q"
        with qc have "c = c'"
          by (rule siblings_apart) (simp add: child_under(3) [OF m] child_under(3) [OF c])
        with c' cL show False by simp
      qed
    qed
    then have m: "map ?f' L = map ?f L" by simp
    have "rm_order ?t' k = (r @ concat (map ?f L)) @ [k]"
      by (subst rm_order.simps) (simp only: l' m list.map concat.simps dir' ih if_True simp_thms)
    with qs show ?thesis by simp
  qed
qed


text \<open>What a removal along an order does to the state.\<close>

lemma rm_seq_effect:
  "rm_seq s order = (r, s') \<Longrightarrow>
     undeletable s' = undeletable s \<and> manifest_file s' = manifest_file s
     \<and> (\<exists>D. set D \<subseteq> set order \<and> nodes s' = filter (\<lambda>e. fst e \<notin> set D) (nodes s)
              \<and> (r = None \<longrightarrow> D = order))"
proof (induction order arbitrary: s)
  case Nil
  then show ?case by (auto intro: exI [of _ "[]"])
next
  case (Cons q qs)
  show ?case
  proof (cases "q \<in> set (undeletable s)")
    case True
    with Cons.prems show ?thesis by (auto intro: exI [of _ "[]"])
  next
    case False
    define s1 where "s1 = s\<lparr>nodes := AList.delete q (nodes s),
        disk_free := disk_free s + (case lookup (nodes s) q of None \<Rightarrow> 0 | Some n \<Rightarrow> file_bytes n)\<rparr>"
    from False Cons.prems have "rm_seq s1 qs = (r, s')" by (simp add: s1_def)
    from Cons.IH [OF this] obtain D where D: "set D \<subseteq> set qs"
      "nodes s' = filter (\<lambda>e. fst e \<notin> set D) (nodes s1)" "r = None \<longrightarrow> D = qs"
      and u: "undeletable s' = undeletable s1" "manifest_file s' = manifest_file s1"
      by blast
    have "nodes s' = filter (\<lambda>e. fst e \<notin> set (q # D)) (nodes s)"
      by (simp add: D(2) s1_def delete_as_filter conj_commute)
    with D u show ?thesis
      by (intro conjI exI [of _ "q # D"]) (auto simp: s1_def)
  qed
qed

lemma rm_seq_fails_iff:
  "(fst (rm_seq s order) \<noteq> None) = (\<exists>q \<in> set order. q \<in> set (undeletable s))"
  by (induction order arbitrary: s) auto

lemma rm_seq_error: "rm_seq s order = (Some e, s') \<Longrightarrow> e = PermissionError"
  by (induction order arbitrary: s) (auto split: if_splits)

text \<open>
  A removal that was refused is refused again at once: in the state it left, the first
  entry of the removal order is the one that cannot be removed.
\<close>

lemma rm_seq_jam:
  "rm_seq s (rm_order (nodes s) k) = (Some e, s')
     \<Longrightarrow> hd (rm_order (nodes s') k) \<in> set (undeletable s')"
proof (induction "length (rm_order (nodes s) k)" arbitrary: s rule: less_induct)
  case less
  obtain q qs where o: "rm_order (nodes s) k = q # qs"
    using rm_order_nonempty [of "nodes s" k] by (cases "rm_order (nodes s) k") auto
  show ?case
  proof (cases "q \<in> set (undeletable s)")
    case True
    with less.prems o show ?thesis by simp
  next
    case False
    define s1 where "s1 = s\<lparr>nodes := AList.delete q (nodes s),
        disk_free := disk_free s + (case lookup (nodes s) q of None \<Rightarrow> 0 | Some n \<Rightarrow> file_bytes n)\<rparr>"
    from False less.prems o have run: "rm_seq s1 qs = (Some e, s')" by (simp add: s1_def)
    have "q \<noteq> k"
    proof
      assume "q = k"
      with o have "qs = []" by (auto dest: rm_order_head_self)
      with run show False by simp
    qed
    from rm_order_step [OF o this] have qs: "rm_order (nodes s1) k = qs" by (simp add: s1_def)
    with o have "length (rm_order (nodes s1) k) < length (rm_order (nodes s) k)" by simp
    from less.hyps [OF this] run qs show ?thesis by simp
  qed
qed

lemma rm_seq_blocked_head:
  "hd order \<in> set (undeletable s) \<Longrightarrow> order \<noteq> [] \<Longrightarrow> rm_seq s order = (Some PermissionError, s)"
  by (cases order) auto

section \<open>Quarantine reset\<close>

lemma lookup_append:
  "lookup (t @ u) k = (case lookup t k of None \<Rightarrow> lookup u k | Some n \<Rightarrow> Some n)"
  by (auto simp: lookup_def map_add_def split: option.splits)

lemma lookup_snoc_new:
  "lookup t k = None \<Longrightarrow> lookup (t @ [(k, n)]) k = Some n"
  by (auto simp: lookup_def map_add_def split: if_splits)

lemma mkdirs_plain:
  assumes "list_all plain cs" and "mkdirs t cur cs = (t', Some k)"
  shows "k = cur @ cs
     \<and> (\<exists>new. t' = t @ new
            \<and> list_all (\<lambda>e. snd e = Dir \<and> (\<exists>i. 0 < i \<and> i \<le> length cs \<and> fst e = cur @ take i cs)) new)
     \<and> (\<forall>i. 0 < i \<and> i \<le> length cs \<longrightarrow> lookup t' (cur @ take i cs) = Some Dir)"
  using assms
proof (induction cs arbitrary: t cur)
  case Nil
  then show ?case by simp
next
  case (Cons c cs)
  from Cons.prems(1) have c: "c \<noteq> []" "c \<noteq> ''.''" "c \<noteq> ''..''" by (simp_all add: plain_def)
  from Cons.prems(1) have cs: "list_all plain cs" by simp
  define t1 where "t1 = (case lookup t (cur @ [c]) of None \<Rightarrow> t @ [(cur @ [c], Dir)] | _ \<Rightarrow> t)"
  from Cons.prems(2) c have rec: "mkdirs t1 (cur @ [c]) cs = (t', Some k)"
    and notfile: "lookup t (cur @ [c]) = None \<or> lookup t (cur @ [c]) = Some Dir"
    by (auto simp: t1_def split: option.splits node.splits)
  from notfile have t1dir: "lookup t1 (cur @ [c]) = Some Dir"
    by (auto simp: t1_def lookup_snoc_new)
  from notfile obtain n0 where n0: "t1 = t @ n0"
    "list_all (\<lambda>e. snd e = Dir \<and> fst e = cur @ [c]) n0"
    by (auto simp: t1_def)
  from Cons.IH [OF cs rec] obtain new where k: "k = (cur @ [c]) @ cs"
    and new: "t' = t1 @ new"
      "list_all (\<lambda>e. snd e = Dir \<and> (\<exists>i. 0 < i \<and> i \<le> length cs \<and> fst e = (cur @ [c]) @ take i cs)) new"
    and dirs: "\<forall>i. 0 < i \<and> i \<le> length cs \<longrightarrow> lookup t' ((cur @ [c]) @ take i cs) = Some Dir"
    by blast
  have a: "k = cur @ c # cs" using k by simp
  have b: "\<exists>new. t' = t @ new
            \<and> list_all (\<lambda>e. snd e = Dir
                 \<and> (\<exists>i. 0 < i \<and> i \<le> length (c # cs) \<and> fst e = cur @ take i (c # cs))) new"
  proof (intro exI [of _ "n0 @ new"] conjI)
    show "t' = t @ n0 @ new" using new(1) n0(1) by simp
    have "\<exists>i. 0 < i \<and> i \<le> length (c # cs) \<and> fst e = cur @ take i (c # cs)"
      if "e \<in> set n0" for e
      using that n0(2) by (intro exI [of _ 1]) (auto simp: list_all_iff)
    moreover have "\<exists>i. 0 < i \<and> i \<le> length (c # cs) \<and> fst e = cur @ take i (c # cs)"
      if "e \<in> set new" for e
    proof -
      from that new(2) obtain i where "0 < i" "i \<le> length cs" "fst e = (cur @ [c]) @ take i cs"
        by (auto simp: list_all_iff)
      then show ?thesis by (intro exI [of _ "Suc i"]) simp
    qed
    ultimately show "list_all (\<lambda>e. snd e = Dir
                 \<and> (\<exists>i. 0 < i \<and> i \<le> length (c # cs) \<and> fst e = cur @ take i (c # cs))) (n0 @ new)"
      using n0(2) new(2) by (auto simp: list_all_iff)
  qed
  have d: "lookup t' (cur @ take i (c # cs)) = Some Dir" if "0 < i" "i \<le> length (c # cs)" for i
  proof (cases i)
    case 0
    with that show ?thesis by simp
  next
    case (Suc j)
    show ?thesis
    proof (cases j)
      case 0
      with Suc t1dir new(1) show ?thesis by (simp add: lookup_append)
    next
      case (Suc j')
      with \<open>i = Suc j\<close> that dirs show ?thesis by simp
    qed
  qed
  from a b d show ?case by blast
qed

lemma dupes_paths:
  assumes "abs_normal ed"
  shows "split_on CHR ''/'' (dupes_folder ed) = [] # dupes_loc ed"
    and "list_all plain (dupes_loc ed)" and "dupes_loc ed \<noteq> []" and "dupes_folder ed \<noteq> []"
proof -
  note t = storage_paths [OF assms]
  note j = join_plain [OF t(7) t(8) plain_storage_names(3), folded dupes_folder_def]
  from j(2) t(1) show "split_on CHR ''/'' (dupes_folder ed) = [] # dupes_loc ed"
    by (simp add: dupes_loc_def)
  from t(3) show "list_all plain (dupes_loc ed)"
    by (simp add: dupes_loc_def plain_storage_names)
  show "dupes_loc ed \<noteq> []" by (simp add: dupes_loc_def)
  from j(3) show "dupes_folder ed \<noteq> []" .
qed

lemma locate_dupes:
  "abs_normal ed \<Longrightarrow>
     locate s (dupes_folder ed) =
       (if parents_ok (nodes s) (dupes_loc ed) then Some (dupes_loc ed) else None)"
  by (rule locate_plain) (simp_all add: dupes_paths)

lemma parents_ok_iff:
  "parents_ok t k = (\<forall>i < length k. lookup t (take i k) = Some Dir)"
  by (auto simp: parents_ok_def list_all_iff)

lemma wf_ancestor:
  assumes "well_formed s"
  shows "lookup (nodes s) k \<noteq> None \<Longrightarrow> is_under q k \<Longrightarrow> q \<noteq> k
           \<Longrightarrow> lookup (nodes s) q = Some Dir"
proof (induction k rule: rev_induct)
  case Nil
  then show ?case by (simp add: is_under_def)
next
  case (snoc c k)
  from snoc.prems(1) obtain n where "(k @ [c], n) \<in> set (nodes s)"
    by (auto simp: lookup_def dest: map_of_SomeD)
  with assms have parent: "lookup (nodes s) k = Some Dir"
    by (auto simp: well_formed_def list_all_iff)
  have "length q \<le> length k"
  proof (rule ccontr)
    assume "\<not> length q \<le> length k"
    then have "take (length q) (k @ [c]) = k @ [c]" by simp
    with snoc.prems(2,3) show False by (simp add: is_under_def)
  qed
  with snoc.prems(2) have u: "is_under q k" by (simp add: is_under_def)
  show ?case
  proof (cases "q = k")
    case True
    with parent show ?thesis by simp
  next
    case False
    with snoc.IH parent u show ?thesis by simp
  qed
qed

lemma wf_no_orphans:
  assumes ed: "abs_normal ed" and wf: "well_formed s"
    and nex: "\<not> os_path_exists s (dupes_folder ed)"
  shows "subtree (nodes s) (dupes_loc ed) = []"
proof (rule ccontr)
  assume "subtree (nodes s) (dupes_loc ed) \<noteq> []"
  then obtain e where e: "e \<in> set (nodes s)" "is_under (dupes_loc ed) (fst e)"
    by (auto simp: subtree_def filter_empty_conv)
  then have "fst e \<in> fst ` set (nodes s)" by simp
  then have "map_of (nodes s) (fst e) \<noteq> None"
    by (simp add: map_of_eq_None_iff)
  then have ex: "lookup (nodes s) (fst e) \<noteq> None"
    by (simp add: lookup_def)
  have q: "lookup (nodes s) (dupes_loc ed) \<noteq> None"
  proof (cases "dupes_loc ed = fst e")
    case True
    with ex show ?thesis by simp
  next
    case False
    with wf_ancestor [OF wf ex e(2)] show ?thesis by simp
  qed
  have "lookup (nodes s) (take i (dupes_loc ed)) = Some Dir" if "i < length (dupes_loc ed)" for i
  proof (rule wf_ancestor [OF wf q])
    show "is_under (take i (dupes_loc ed)) (dupes_loc ed)"
      using that by (simp add: is_under_def min_def)
    show "take i (dupes_loc ed) \<noteq> dupes_loc ed"
    proof
      assume "take i (dupes_loc ed) = dupes_loc ed"
      then have "length (take i (dupes_loc ed)) = length (dupes_loc ed)" by simp
      with that show False by simp
    qed
  qed
  then have "parents_ok (nodes s) (dupes_loc ed)" by (simp add: parents_ok_iff)
  with q have "os_path_exists s (dupes_folder ed)"
    by (simp add: os_path_exists_def stat_def locate_dupes [OF ed])
  with nex show False by simp
qed

lemma makedirs_dupes:
  assumes ed: "abs_normal ed" and mk: "os_makedirs s (dupes_folder ed) False = (None, s2)"
    and empty: "subtree (nodes s) (dupes_loc ed) = []"
  shows "quarantine_fresh s2 ed"
proof -
  note p = dupes_paths [OF ed]
  from mk p(4) obtain t' k where m: "mkdirs (nodes s) [] (dupes_loc ed) = (t', Some k)"
    and s2: "nodes s2 = t'"
    by (auto simp: os_makedirs_def p(1) split: if_splits prod.splits option.splits)
  from mkdirs_plain [OF p(2) m] obtain new where new: "t' = nodes s @ new"
    "list_all (\<lambda>e. snd e = Dir \<and> (\<exists>i. 0 < i \<and> i \<le> length (dupes_loc ed)
                                   \<and> fst e = take i (dupes_loc ed))) new"
    and dirs: "\<forall>i. 0 < i \<and> i \<le> length (dupes_loc ed)
                 \<longrightarrow> lookup t' (take i (dupes_loc ed)) = Some Dir"
    by auto
  have all: "lookup t' (take i (dupes_loc ed)) = Some Dir" if "i \<le> length (dupes_loc ed)" for i
    using that dirs by (cases i) (simp_all add: lookup_def)
  then have "parents_ok t' (dupes_loc ed)" by (simp add: parents_ok_iff)
  moreover from all [of "length (dupes_loc ed)"] have "lookup t' (dupes_loc ed) = Some Dir"
    by simp
  ultimately have dir: "os_path_isdir s2 (dupes_folder ed)"
    by (simp add: os_path_isdir_def stat_def locate_dupes [OF ed] s2)
  have "fst e = dupes_loc ed" if "e \<in> set (subtree t' (dupes_loc ed))" for e
  proof -
    from that empty new(1) have e: "e \<in> set new" "is_under (dupes_loc ed) (fst e)"
      by (auto simp: subtree_def filter_empty_conv)
    with new(2) obtain i where "i \<le> length (dupes_loc ed)" "fst e = take i (dupes_loc ed)"
      by (auto simp: list_all_iff)
    with e(2) show ?thesis
      by (auto simp: is_under_def)
  qed
  with dir show ?thesis by (simp add: quarantine_fresh_def s2 list_all_iff)
qed

text \<open>In a well-formed tree the removal order of a directory holds all that lies below it.\<close>

lemma rm_order_block:
  "c \<in> set (rm_order t k) \<Longrightarrow> lookup t c = Some Dir
     \<Longrightarrow> set (rm_order t c) \<subseteq> set (rm_order t k)"
proof (induction t k rule: rm_order.induct)
  case (1 t k)
  show ?case
  proof (cases "c = k")
    case True
    then show ?thesis by simp
  next
    case False
    with 1(2) obtain c' where c': "c' \<in> set (listdir t k)"
      and m: "if lookup t c' = Some Dir then c \<in> set (rm_order t c') else c = c'"
      by (subst (asm) rm_order_mem) auto
    have dir: "lookup t c' = Some Dir"
    proof (rule ccontr)
      assume "lookup t c' \<noteq> Some Dir"
      with m 1(3) show False by simp
    qed
    with m have "c \<in> set (rm_order t c')" by simp
    from 1(1) [OF c' dir this 1(3)] have "set (rm_order t c) \<subseteq> set (rm_order t c')" .
    moreover have "q \<in> set (rm_order t k)" if "q \<in> set (rm_order t c')" for q
      using c' dir that by (subst rm_order_mem) auto
    ultimately show ?thesis by blast
  qed
qed

lemma child_in_order: "c \<in> set (listdir t k) \<Longrightarrow> c \<in> set (rm_order t k)"
proof -
  assume c: "c \<in> set (listdir t k)"
  have "c \<in> set (rm_order t c)" using rm_order_last [of t c] rm_order_nonempty [of t c]
    by (metis last_in_set)
  with c show ?thesis by (subst rm_order_mem) auto
qed

lemma wf_reach:
  assumes wf: "well_formed s"
  shows "(q, n) \<in> set (nodes s) \<Longrightarrow> is_under k q \<Longrightarrow> q \<in> set (rm_order (nodes s) k)"
proof (induction q arbitrary: n rule: rev_induct)
  case Nil
  then have "k = []" by (simp add: is_under_def)
  then show ?case by (subst rm_order_mem) simp
next
  case (snoc x p)
  show ?case
  proof (cases "p @ [x] = k")
    case True
    then show ?thesis by (subst rm_order_mem) simp
  next
    case False
    from snoc.prems(2) have t: "take (length k) (p @ [x]) = k" by (simp add: is_under_def)
    have "length k \<le> length p"
    proof (rule ccontr)
      assume "\<not> length k \<le> length p"
      with t have "p @ [x] = k" by (metis length_append_singleton not_less_eq_eq take_all)
      with False show False by simp
    qed
    with t have up: "is_under k p" by (simp add: is_under_def)
    from wf snoc.prems(1) have dir: "lookup (nodes s) p = Some Dir"
      by (auto simp: well_formed_def list_all_iff)
    from snoc.prems(1) have child: "p @ [x] \<in> set (listdir (nodes s) p)"
      by (force simp: listdir_def)
    have "p \<in> set (rm_order (nodes s) k)"
    proof (cases "p = []")
      case True
      with up have "k = p" by (simp add: is_under_def)
      then show ?thesis by (subst rm_order_mem) simp
    next
      case False
      with dir have "(p, Dir) \<in> set (nodes s)" by (simp add: lookup_def map_of_SomeD)
      then show ?thesis using up by (rule snoc.IH)
    qed
    from rm_order_block [OF this dir] child_in_order [OF child] show ?thesis by blast
  qed
qed

lemma rmtree_dupes:
  assumes ed: "abs_normal ed" and wf: "well_formed s"
    and rm: "shutil_rmtree s (dupes_folder ed) = (None, s1)"
  shows "subtree (nodes s1) (dupes_loc ed) = []"
proof -
  let ?k = "dupes_loc ed"
  from rm have run: "rm_seq s (rm_order (nodes s) ?k) = (None, s1)"
    by (auto simp: shutil_rmtree_def locate_dupes [OF ed]
        split: if_splits option.splits node.splits)
  from rm_seq_effect [OF run]
  have n: "nodes s1 = filter (\<lambda>e. fst e \<notin> set (rm_order (nodes s) ?k)) (nodes s)" by auto
  have "\<not> is_under ?k (fst e)" if "e \<in> set (nodes s1)" for e
  proof
    assume u: "is_under ?k (fst e)"
    from that n have e: "e \<in> set (nodes s)" "fst e \<notin> set (rm_order (nodes s) ?k)" by auto
    from wf_reach [OF wf, of "fst e" "snd e" ?k] e(1) u
    have "fst e \<in> set (rm_order (nodes s) ?k)" by simp
    with e(2) show False by simp
  qed
  then show ?thesis by (auto simp: subtree_def filter_empty_conv)
qed

text \<open>
  C9 (as the code has it). A scan that finds no duplicate group returns without touching
  the file system. A scan that finds one and returns has wiped and re-made the quarantine
  directory first: its copies are made from a state in which \<open>_duplicates\<close> exists and
  nothing lies below it.
\<close>

theorem quarantine_reset:
  assumes ed: "abs_normal ed" and wf: "well_formed s"
  shows "(scan_duplicates sha s ed = [] \<longrightarrow> find_duplicates sha s ed = (Inr (0, []), s))
       \<and> (\<forall>r s'. scan_duplicates sha s ed \<noteq> [] \<and> find_duplicates sha s ed = (Inr r, s') \<longrightarrow>
             (\<exists>s2. quarantine_fresh s2 ed
                   \<and> copy_groups s2 (dupes_folder ed) (scan_duplicates sha s ed) = (None, s')))"
proof (intro conjI impI allI)
  assume "scan_duplicates sha s ed = []"
  then show "find_duplicates sha s ed = (Inr (0, []), s)"
    by (simp add: find_duplicates_def)
next
  fix r s'
  assume a: "scan_duplicates sha s ed \<noteq> [] \<and> find_duplicates sha s ed = (Inr r, s')"
  define s1 where "s1 = (if os_path_exists s (dupes_folder ed)
                          then snd (shutil_rmtree s (dupes_folder ed)) else s)"
  from a obtain s2 where wiped: "os_path_exists s (dupes_folder ed)
                                   \<longrightarrow> shutil_rmtree s (dupes_folder ed) = (None, s1)"
    and mk: "os_makedirs s1 (dupes_folder ed) False = (None, s2)"
    and cp: "copy_groups s2 (dupes_folder ed) (scan_duplicates sha s ed) = (None, s')"
    by (auto simp: find_duplicates_def dupes_folder_def [symmetric] s1_def Let_def
        split: if_splits sum.splits prod.splits option.splits)
  have "subtree (nodes s1) (dupes_loc ed) = []"
  proof (cases "os_path_exists s (dupes_folder ed)")
    case True
    with wiped show ?thesis by (simp add: rmtree_dupes [OF ed wf])
  next
    case False
    then show ?thesis by (simp add: s1_def wf_no_orphans [OF ed wf])
  qed
  with mk have "quarantine_fresh s2 ed" by (rule makedirs_dupes [OF ed])
  with cp show "\<exists>s2. quarantine_fresh s2 ed
                   \<and> copy_groups s2 (dupes_folder ed) (scan_duplicates sha s ed) = (None, s')"
    by blast
qed

lemma dupes_folder_app: "dupes_folder ''/opt/app'' = ''/opt/app/homedrive_storage/_duplicates''"
  by (simp add: dupes_folder_def path_defs)

lemma skip_quarantine_rows:
  "\<not> contains ''/opt/app/homedrive_storage'' ''_duplicates''"
  "\<not> contains ''/opt/app/homedrive_storage'' ''.trash''"
  "contains ''/opt/app/homedrive_storage/_duplicates'' ''_duplicates''"
  "contains ''/opt/app/homedrive_storage/_duplicates/deadbeef'' ''_duplicates''"
  by (simp_all add: startswith_def)

lemma join_root_files:
  "os_path_join ''/opt/app/homedrive_storage'' ''a.txt'' = ''/opt/app/homedrive_storage/a.txt''"
  "os_path_join ''/opt/app/homedrive_storage'' ''b.txt'' = ''/opt/app/homedrive_storage/b.txt''"
  by (simp_all add: os_path_join_def startswith_def endswith_def)

lemma relpath_root_files:
  "os_path_relpath ''/opt/app/homedrive_storage/a.txt'' (BASE_DIR ''/opt/app'') = ''a.txt''"
  "os_path_relpath ''/opt/app/homedrive_storage/b.txt'' (BASE_DIR ''/opt/app'') = ''b.txt''"
  by (simp_all add: os_path_relpath_def base_dir_app)

lemma walk_stale_quarantine:
  "os_walk stale_quarantine (BASE_DIR ''/opt/app'') =
     [(''/opt/app/homedrive_storage'', [''a.txt'']),
      (''/opt/app/homedrive_storage/_duplicates'', []),
      (''/opt/app/homedrive_storage/_duplicates/deadbeef'', [''0_old.txt''])]"
  by (simp add: os_walk_def stale_quarantine_def fs_defs base_dir_app files_in_def
      os_path_join_def startswith_def endswith_def)

lemma walk_stale_with_twins:
  "os_walk stale_with_twins (BASE_DIR ''/opt/app'') =
     [(''/opt/app/homedrive_storage'', [''a.txt'', ''b.txt'']),
      (''/opt/app/homedrive_storage/_duplicates'', []),
      (''/opt/app/homedrive_storage/_duplicates/deadbeef'', [''0_old.txt''])]"
  by (simp add: os_walk_def stale_with_twins_def fs_defs base_dir_app files_in_def
      os_path_join_def startswith_def endswith_def)

lemma stat_stale:
  "stat stale_quarantine ''/opt/app/homedrive_storage/a.txt'' = Some (File ''hello'')"
  "stat stale_quarantine ''/opt/app/homedrive_storage/_duplicates/deadbeef/0_old.txt''
     = Some (File ''old'')"
  "stat stale_with_twins ''/opt/app/homedrive_storage/a.txt'' = Some (File ''hello'')"
  "stat stale_with_twins ''/opt/app/homedrive_storage/b.txt'' = Some (File ''hello'')"
  by (simp_all add: stale_quarantine_def stale_with_twins_def fs_defs)

lemma scan_stale_quarantine: "scan_duplicates sha stale_quarantine ''/opt/app'' = []"
  by (simp add: scan_duplicates_def walk_stale_quarantine skip_quarantine_rows join_root_files
      relpath_root_files os_path_getsize_def stat_stale files_to_hash_def del: contains.simps)

text \<open>
  C9 as stated fails when a scan finds no duplicate: \<open>find_duplicates\<close> returns before the
  quarantine directory is touched, and the copy left there by an earlier scan survives.
\<close>

theorem stale_quarantine_survives:
  "find_duplicates (\<lambda>b. b) stale_quarantine ''/opt/app'' = (Inr (0, []), stale_quarantine)
   \<and> stat stale_quarantine ''/opt/app/homedrive_storage/_duplicates/deadbeef/0_old.txt''
       = Some (File ''old'')"
  by (simp add: find_duplicates_def scan_stale_quarantine stat_stale)

lemma scan_stale_with_twins:
  "scan_duplicates sha stale_with_twins ''/opt/app'' = [(sha ''hello'', [a_info, b_info])]"
  by (simp add: scan_duplicates_def walk_stale_with_twins skip_quarantine_rows join_root_files
      relpath_root_files os_path_getsize_def stat_stale files_to_hash_def
      hash_file_of_content LARGE_FILE_THRESHOLD_def a_info_def b_info_def del: contains.simps)

lemma twins_wipe:
  "os_path_exists stale_with_twins ''/opt/app/homedrive_storage/_duplicates''"
  "shutil_rmtree stale_with_twins ''/opt/app/homedrive_storage/_duplicates''
     = (None, twins_wiped)"
proof -
  show "os_path_exists stale_with_twins ''/opt/app/homedrive_storage/_duplicates''"
    by (simp add: stale_with_twins_def fs_defs)
  have inner: "rm_order (nodes stale_with_twins)
                 [''opt'', ''app'', ''homedrive_storage'', ''_duplicates'', ''deadbeef'']
               = [[''opt'', ''app'', ''homedrive_storage'', ''_duplicates'', ''deadbeef'',
                   ''0_old.txt''],
                  [''opt'', ''app'', ''homedrive_storage'', ''_duplicates'', ''deadbeef'']]"
    by (subst rm_order.simps) (simp add: stale_with_twins_def listdir_def lookup_def)
  have outer: "rm_order (nodes stale_with_twins)
                 [''opt'', ''app'', ''homedrive_storage'', ''_duplicates'']
               = [[''opt'', ''app'', ''homedrive_storage'', ''_duplicates'', ''deadbeef'',
                   ''0_old.txt''],
                  [''opt'', ''app'', ''homedrive_storage'', ''_duplicates'', ''deadbeef''],
                  [''opt'', ''app'', ''homedrive_storage'', ''_duplicates'']]"
    by (subst rm_order.simps)
       (simp add: stale_with_twins_def listdir_def lookup_def
          inner [unfolded stale_with_twins_def, simplified])
  show "shutil_rmtree stale_with_twins ''/opt/app/homedrive_storage/_duplicates''
          = (None, twins_wiped)"
    by (simp add: shutil_rmtree_def stale_with_twins_def twins_wiped_def fs_defs file_bytes_def
          outer [unfolded stale_with_twins_def, simplified])
qed

lemma twins_remake:
  "os_makedirs twins_wiped ''/opt/app/homedrive_storage/_duplicates'' False = (None, twins_made)"
  by (simp add: twins_wiped_def twins_made_def fs_defs)

lemma twins_names:
  "os_path_join ''/opt/app/homedrive_storage/_duplicates'' ''hello''
     = ''/opt/app/homedrive_storage/_duplicates/hello''"
  "os_path_join ''/opt/app/homedrive_storage/_duplicates/hello''
     (str_nat 0 @ CHR ''_'' # safe_name (f_path a_info))
     = ''/opt/app/homedrive_storage/_duplicates/hello/0_a.txt''"
  "os_path_join ''/opt/app/homedrive_storage/_duplicates/hello''
     (str_nat (Suc 0) @ CHR ''_'' # safe_name (f_path b_info))
     = ''/opt/app/homedrive_storage/_duplicates/hello/1_b.txt''"
  "f_full_path a_info = ''/opt/app/homedrive_storage/a.txt''"
  "f_full_path b_info = ''/opt/app/homedrive_storage/b.txt''"
  "f_size a_info = 5"
  by (simp_all add: a_info_def b_info_def safe_name_def str_nat.simps digit_char_def
      os_path_join_def startswith_def endswith_def)

lemma twins_copy:
  "copy_groups twins_made ''/opt/app/homedrive_storage/_duplicates''
     [(''hello'', [a_info, b_info])] = (None, twins_scanned)"
proof -
  define s3 where "s3 = twins_made\<lparr>nodes := nodes twins_made @
        [([''opt'', ''app'', ''homedrive_storage'', ''_duplicates'', ''hello''], Dir)]\<rparr>"
  define s4 where "s4 = s3\<lparr>nodes := nodes s3 @
        [([''opt'', ''app'', ''homedrive_storage'', ''_duplicates'', ''hello'', ''0_a.txt''],
          File ''hello'')], disk_free := 998\<rparr>"
  have mk: "os_makedirs twins_made ''/opt/app/homedrive_storage/_duplicates/hello'' True
              = (None, s3)"
    by (simp add: s3_def twins_made_def twins_wiped_def fs_defs)
  have c1: "shutil_copy2 s3 ''/opt/app/homedrive_storage/a.txt''
              ''/opt/app/homedrive_storage/_duplicates/hello/0_a.txt'' = Inr s4"
    by (simp add: shutil_copy2_def s4_def s3_def twins_made_def twins_wiped_def fs_defs)
  have c2: "shutil_copy2 s4 ''/opt/app/homedrive_storage/b.txt''
              ''/opt/app/homedrive_storage/_duplicates/hello/1_b.txt'' = Inr twins_scanned"
    by (simp add: shutil_copy2_def s4_def s3_def twins_made_def twins_wiped_def
        twins_scanned_def fs_defs)
  show ?thesis
    by (simp add: twins_names mk c1 c2 Let_def)
qed

lemma twins_find_duplicates:
  "find_duplicates (\<lambda>b. b) stale_with_twins ''/opt/app'' =
     (Inr (1, [\<lparr>g_hash = ''hello'', g_count = 2, g_size = 5, g_files = [a_info, b_info]\<rparr>]),
      twins_scanned)"
  by (simp add: find_duplicates_def scan_stale_with_twins dupes_folder_app [unfolded dupes_folder_def]
      twins_wipe twins_remake twins_copy twins_names Let_def del: copy_groups.simps)

text \<open>
  Two identical files and a quarantine directory left by an earlier scan: the scan reports
  the pair, and the earlier copy is gone.
\<close>

theorem quarantine_reset_witness:
  "abs_normal ''/opt/app'' \<and> well_formed stale_with_twins
   \<and> scan_duplicates (\<lambda>b. b) stale_with_twins ''/opt/app'' = [(''hello'', [a_info, b_info])]
   \<and> find_duplicates (\<lambda>b. b) stale_with_twins ''/opt/app'' =
       (Inr (1, [\<lparr>g_hash = ''hello'', g_count = 2, g_size = 5, g_files = [a_info, b_info]\<rparr>]),
        twins_scanned)
   \<and> (\<exists>s2. quarantine_fresh s2 ''/opt/app''
            \<and> copy_groups s2 (dupes_folder ''/opt/app'') [(''hello'', [a_info, b_info])]
                = (None, twins_scanned))
   \<and> stat twins_scanned ''/opt/app/homedrive_storage/_duplicates/deadbeef/0_old.txt'' = None"
proof -
  have wf: "well_formed stale_with_twins"
    by (simp add: well_formed_def stale_with_twins_def lookup_def)
  have gone: "stat twins_scanned ''/opt/app/homedrive_storage/_duplicates/deadbeef/0_old.txt''
                = None"
    by (simp add: twins_scanned_def fs_defs)
  from quarantine_reset [OF abs_normal_app wf, of "\<lambda>b. b"]
  have "\<exists>s2. quarantine_fresh s2 ''/opt/app''
            \<and> copy_groups s2 (dupes_folder ''/opt/app'') [(''hello'', [a_info, b_info])]
                = (None, twins_scanned)"
    using twins_find_duplicates by (simp add: scan_stale_with_twins)
  with wf gone show ?thesis
    using abs_normal_app twins_find_duplicates by (simp add: scan_stale_with_twins)
qed

section \<open>Upload atomicity\<close>

lemma free_upload_name_free_aux:
  assumes "free_upload_name s ed up base ext counter cur = Some y"
  shows "case y of Inl e \<Rightarrow> True | Inr found \<Rightarrow> \<not> os_path_exists s (snd found)"
  using assms
proof (induction rule: free_upload_name.raw_induct)
  case (1 f s ed up base ext counter cur y)
  note IH = 1(1) and body = 1(2) and run = 1(3)
  show ?case
  proof (cases "os_path_exists s (snd cur)")
    case False
    with body show ?thesis by auto
  next
    case True
    define dest where
      "dest = (if up \<noteq> [] then os_path_join up (base @ CHR ''_'' # str_nat counter @ ext)
               else base @ CHR ''_'' # str_nat counter @ ext)"
    show ?thesis
    proof (cases "full_path_of ed dest")
      case (Inl e)
      with True body show ?thesis by (auto simp: dest_def Let_def)
    next
      case (Inr full)
      from body True Inr
      have a: "f s ed up base ext (counter + 1) (dest, full) = Some y"
        by (simp add: Let_def dest_def)
      from run True Inr
      have b: "free_upload_name s ed up base ext (counter + 1) (dest, full) = Some y"
        by (subst (asm) free_upload_name.simps) (simp add: Let_def dest_def)
      from IH [OF a b] show ?thesis .
    qed
  qed
qed (rule assms)

lemma free_upload_name_free:
  "free_upload_name s ed up base ext counter cur = Some (Inr found)
     \<Longrightarrow> \<not> os_path_exists s (snd found)"
  using free_upload_name_free_aux [of s ed up base ext counter cur "Inr found"] by simp

lemma lookup_update:
  "lookup (AList.update q v t) k = (if k \<noteq> [] \<and> k = q then Some v else lookup t k)"
  by (simp add: lookup_def AList.update_conv')

lemma lookup_root: "lookup t [] = Some Dir"
  by (simp add: lookup_def)

lemma touched_refl: "lookup (nodes s) k \<noteq> Some Dir \<Longrightarrow> touched k s s"
  by (simp add: touched_def)

lemma touched_trans: "touched k s s' \<Longrightarrow> touched k s' s'' \<Longrightarrow> touched k s s''"
  by (simp add: touched_def)

lemma touched_dirs:
  "touched k s s' \<Longrightarrow> (lookup (nodes s') q = Some Dir) = (lookup (nodes s) q = Some Dir)"
  by (cases "q = k") (auto simp: touched_def)

lemma touched_locate: "touched k s s' \<Longrightarrow> locate s' p = locate s p"
  unfolding locate_def using namei_cong [of "nodes s'" "nodes s"] touched_dirs [of k s s']
  by simp

lemma touched_stat:
  "touched k s s' \<Longrightarrow> locate s p \<noteq> Some k \<Longrightarrow> stat s' p = stat s p"
  by (auto simp: stat_def touched_locate touched_def split: option.splits)

lemma open_wb_touched:
  assumes "open_wb s p = Inr (k, s1)"
  shows "locate s p = Some k" and "touched k s s1" and "lookup (nodes s1) k = Some (File [])"
proof -
  from assms show l: "locate s p = Some k"
    by (auto simp: open_wb_def split: option.splits node.splits)
  from assms l have n: "lookup (nodes s) k \<noteq> Some Dir"
    by (auto simp: open_wb_def split: option.splits node.splits)
  then have k: "k \<noteq> []" by (auto simp: lookup_root)
  from assms l have u: "nodes s1 = AList.update k (File []) (nodes s)"
    "undeletable s1 = undeletable s"
    by (auto simp: open_wb_def split: option.splits node.splits)
  from u k show "lookup (nodes s1) k = Some (File [])" by (simp add: lookup_update)
  with n u show "touched k s s1" by (simp add: touched_def lookup_update)
qed

lemma file_write_touched:
  assumes "file_write s k c = Inr s'" and "lookup (nodes s) k = Some (File c0)"
  shows "touched k s s'" and "lookup (nodes s') k = Some (File (c0 @ c))"
proof -
  from assms(2) have k: "k \<noteq> []" by (auto simp: lookup_root)
  from assms have u: "nodes s' = AList.update k (File (c0 @ c)) (nodes s)"
    "undeletable s' = undeletable s"
    by (auto simp: file_write_def split: if_splits)
  from u k show "lookup (nodes s') k = Some (File (c0 @ c))" by (simp add: lookup_update)
  with assms(2) u show "touched k s s'" by (simp add: touched_def lookup_update)
qed

lemma write_stream_touched:
  "write_stream s k st = (r, s') \<Longrightarrow> lookup (nodes s) k = Some (File c0)
     \<Longrightarrow> touched k s s'
         \<and> (r = None \<longrightarrow> complete st \<and> lookup (nodes s') k = Some (File (c0 @ payload st)))"
proof (induction s k st arbitrary: c0 rule: write_stream.induct)
  case (1 s k)
  then show ?case by (simp add: touched_refl)
next
  case (2 s k rest)
  then show ?case by (auto simp: touched_refl)
next
  case (3 s k c rest)
  show ?case
  proof (cases "c = []")
    case True
    with 3(2,3) show ?thesis by (auto simp: touched_refl)
  next
    case False
    show ?thesis
    proof (cases "file_write s k c")
      case (Inl e)
      with False 3(2,3) show ?thesis by (auto simp: touched_refl)
    next
      case (Inr s1)
      note w = file_write_touched [OF Inr 3(3)]
      from 3(2) False Inr have "write_stream s1 k rest = (r, s')" by simp
      from 3(1) [OF False Inr this w(2)] w(1) False show ?thesis
        by (auto intro: touched_trans)
    qed
  qed
qed

text \<open>The temporary sibling: its last component is that of the path, with the suffix.\<close>

lemma split_on_suffix:
  "c \<notin> set b \<Longrightarrow>
     split_on c (a @ b) = butlast (split_on c a) @ [last (split_on c a) @ b]"
proof (induction a)
  case Nil
  then show ?case by (simp add: split_on_plain)
next
  case (Cons x a)
  then show ?case
    using split_on_nonempty [of c a]
    by (cases "split_on c a") auto
qed

lemma temp_location:
  assumes "locate s (p @ ''.tmp'') = Some kt"
  shows "kt \<noteq> []" and "locate s p \<noteq> Some kt"
proof -
  let ?cs = "split_on CHR ''/'' p"
  let ?t = "nodes s"
  have sp: "split_on CHR ''/'' (p @ ''.tmp'') = butlast ?cs @ [last ?cs @ ''.tmp'']"
    by (rule split_on_suffix) simp
  have cs: "?cs = butlast ?cs @ [last ?cs]"
    using split_on_nonempty [of "CHR ''/''" p] by simp
  from assms sp obtain cur where
    cur: "namei ?t [] (butlast ?cs) = Some cur" and t: "namei ?t cur [last ?cs @ ''.tmp''] = Some kt"
    by (auto simp: locate_def namei_append split: option.splits)
  have ne: "last ?cs @ ''.tmp'' \<noteq> ''.''" "last ?cs @ ''.tmp'' \<noteq> ''..''"
    by (auto dest: arg_cong [where f = length])
  from t ne have kt: "kt = cur @ [last ?cs @ ''.tmp'']" by (auto split: if_splits)
  then show "kt \<noteq> []" by simp
  have "namei ?t [] ?cs = (case namei ?t [] (butlast ?cs) of None \<Rightarrow> None
                           | Some k \<Rightarrow> namei ?t k [last ?cs])"
    by (subst cs) (rule namei_append)
  with cur have f: "namei ?t [] ?cs = namei ?t cur [last ?cs]" by simp
  have "namei ?t cur [last ?cs] \<noteq> Some kt"
  proof
    assume "namei ?t cur [last ?cs] = Some kt"
    then consider "kt = cur" | "kt = butlast cur" | "kt = cur @ [last ?cs]"
      by (auto split: if_splits)
    then show False
    proof cases
      case 1
      with kt show False by simp
    next
      case 2
      with kt have "length (butlast cur) = length (cur @ [last ?cs @ ''.tmp''])" by simp
      then show False by simp
    next
      case 3
      with kt show False by simp
    qed
  qed
  with f show "locate s p \<noteq> Some kt" by (simp add: locate_def)
qed

lemma os_remove_touched:
  assumes "os_remove s p = Inr s'"
  shows "\<exists>k. locate s p = Some k \<and> touched k s s' \<and> lookup (nodes s') k = None"
proof -
  from assms obtain k c where l: "locate s p = Some k"
    and f: "lookup (nodes s) k = Some (File c)"
    and u: "nodes s' = AList.delete k (nodes s)" "undeletable s' = undeletable s"
    by (auto simp: os_remove_def split: option.splits node.splits if_splits)
  from f have k: "k \<noteq> []" by (auto simp: lookup_root)
  with u have "lookup (nodes s') k = None" by (simp add: lookup_delete)
  moreover from this f u have "touched k s s'" by (simp add: touched_def lookup_delete)
  ultimately show ?thesis using l by blast
qed

lemma os_remove_denied:
  assumes "os_remove s p = Inl e" and "is_file s p"
  shows "removal_denied s p"
  using assms
  by (auto simp: os_remove_def is_file_def removal_denied_def stat_def
           split: option.splits node.splits if_splits)

lemma touched_is_file:
  "touched k s s' \<Longrightarrow> locate s p = Some k \<Longrightarrow> lookup (nodes s') k = None
     \<Longrightarrow> \<not> is_file s' p"
  by (simp add: is_file_def stat_def touched_locate)

text \<open>The handler leaves a regular file at the temporary path only when its removal is denied.\<close>

lemma discard_temp_effect:
  shows "\<not> is_file (discard_temp s t) t \<or> removal_denied (discard_temp s t) t"
    and "discard_temp s t = s \<or> (\<exists>k. locate s t = Some k \<and> touched k s (discard_temp s t))"
proof -
  show "discard_temp s t = s \<or> (\<exists>k. locate s t = Some k \<and> touched k s (discard_temp s t))"
    using os_remove_touched [of s t]
    by (auto simp: discard_temp_def split: sum.splits)
  show "\<not> is_file (discard_temp s t) t \<or> removal_denied (discard_temp s t) t"
  proof (cases "os_remove s t")
    case (Inl e)
    then have "discard_temp s t = s" by (simp add: discard_temp_def)
    with os_remove_denied [OF Inl] show ?thesis by auto
  next
    case (Inr s')
    from os_remove_touched [OF Inr] have "\<not> is_file s' t" by (auto dest: touched_is_file)
    moreover from Inr have "os_path_exists s t"
      by (auto simp: os_remove_def os_path_exists_def stat_def split: option.splits)
    ultimately show ?thesis using Inr by (simp add: discard_temp_def)
  qed
qed

text \<open>A failed \<open>try\<close> block has touched nothing but the temporary file.\<close>

lemma write_then_rename_failure:
  assumes "write_then_rename s t full st = (Some e, s2)"
  shows "s2 = s \<or> (\<exists>k. locate s t = Some k \<and> touched k s s2)"
proof (cases "open_wb s t")
  case (Inl e')
  with assms show ?thesis by (simp add: write_then_rename_def)
next
  case (Inr r)
  obtain k s1 where r: "r = (k, s1)" by (cases r)
  note o = open_wb_touched [OF Inr [unfolded r]]
  obtain x sw where w: "write_stream s1 k st = (x, sw)" by (cases "write_stream s1 k st")
  from write_stream_touched [OF w o(3)] have t: "touched k s1 sw" by simp
  from assms Inr r w have "s2 = sw"
    by (auto simp: write_then_rename_def split: option.splits sum.splits)
  with o t show ?thesis by (auto intro: touched_trans)
qed

lemma write_and_commit_failure:
  assumes "write_and_commit s dest full st = (Inl e, s')"
  shows "stat s' full = stat s full"
    and "\<not> is_file s' (full @ ''.tmp'') \<or> removal_denied s' (full @ ''.tmp'')"
proof -
  let ?t = "full @ ''.tmp''"
  from assms obtain e' s2 where w: "write_then_rename s ?t full st = (Some e', s2)"
    and s': "s' = discard_temp s2 ?t"
    by (auto simp: write_and_commit_def Let_def split: option.splits prod.splits)
  from s' discard_temp_effect(1) [of s2 ?t]
  show "\<not> is_file s' ?t \<or> removal_denied s' ?t" by simp
  have a: "stat s2 full = stat s full"
    using write_then_rename_failure [OF w] temp_location(2) [of s full]
    by (auto dest: touched_stat)
  have b: "stat s' full = stat s2 full"
    using discard_temp_effect(2) [of s2 ?t] temp_location(2) [of s2 full] s'
    by (auto dest: touched_stat)
  from a b show "stat s' full = stat s full" by simp
qed

lemma locate_cong:
  assumes "\<And>q. (lookup (nodes s') q = Some Dir) = (lookup (nodes s) q = Some Dir)"
  shows "locate s' p = locate s p"
  unfolding locate_def using namei_cong [of "nodes s'" "nodes s", OF assms] by simp

text \<open>A \<open>try\<close> block that ends has written the whole stream and renamed the file.\<close>

lemma write_then_rename_success:
  assumes "write_then_rename s (full @ ''.tmp'') full st = (None, s')"
  shows "complete st" and "stat s' full = Some (File (payload st))"
    and "\<not> os_path_exists s' (full @ ''.tmp'')"
proof -
  let ?t = "full @ ''.tmp''"
  from assms obtain k s1 where op: "open_wb s ?t = Inr (k, s1)"
    by (auto simp: write_then_rename_def split: sum.splits)
  note o = open_wb_touched [OF op]
  from assms op obtain s2 where w: "write_stream s1 k st = (None, s2)"
    and r: "os_replace s2 ?t full = Inr s'"
    by (auto simp: write_then_rename_def split: sum.splits option.splits prod.splits)
  from write_stream_touched [OF w o(3)]
  have t: "touched k s1 s2" and c: "complete st"
    and f: "lookup (nodes s2) k = Some (File (payload st))" by simp_all
  from c show "complete st" .
  from o(1) o(2) t have lt: "locate s2 ?t = Some k" by (simp add: touched_locate)
  note ne = temp_location [OF lt]
  from r lt f obtain kd where lf: "locate s2 full = Some kd"
    and nd: "lookup (nodes s2) kd \<noteq> Some Dir"
    and u: "k = kd \<or> nodes s' = AList.update kd (File (payload st)) (AList.delete k (nodes s2))"
    by (auto simp: os_replace_def split: option.splits node.splits if_splits)
  from ne(2) lf have d: "kd \<noteq> k" by auto
  with u have n: "nodes s' = AList.update kd (File (payload st)) (AList.delete k (nodes s2))"
    by auto
  from nd have kd: "kd \<noteq> []" by (auto simp: lookup_root)
  have "(lookup (nodes s') q = Some Dir) = (lookup (nodes s2) q = Some Dir)" for q
    using nd f by (auto simp: n lookup_update lookup_delete)
  then have l: "locate s' p = locate s2 p" for p by (rule locate_cong)
  from lf kd show "stat s' full = Some (File (payload st))"
    by (simp add: stat_def l n lookup_update)
  from lt d ne(1) show "\<not> os_path_exists s' ?t"
    by (simp add: os_path_exists_def stat_def l n lookup_update lookup_delete)
qed

lemma write_and_commit_success:
  assumes "write_and_commit s dest full st = (Inr d, s')"
  shows "d = dest \<and> complete st \<and> stat s' full = Some (File (payload st))
         \<and> \<not> os_path_exists s' (full @ ''.tmp'')"
proof -
  from assms have "write_then_rename s (full @ ''.tmp'') full st = (None, s')" and "d = dest"
    by (auto simp: write_and_commit_def Let_def split: option.splits prod.splits)
  with write_then_rename_success [of s full st s'] show ?thesis by simp
qed

lemma prepare_upload_free:
  assumes "prepare_upload s ed file up rel = Some (Inr (dest, full), s1)"
  shows "\<not> os_path_exists s1 full"
proof -
  from assms obtain b x c found where
    "free_upload_name s1 ed up b x c found = Some (Inr (dest, full))"
    by (auto simp: prepare_upload_def Let_def
             split: sum.splits prod.splits if_splits option.splits)
  from free_upload_name_free [OF this] show ?thesis by simp
qed

text \<open>
  C2 (as the code has it). Once the target name is chosen, an upload that fails leaves
  nothing at the final path, and at the temporary path no regular file unless the operating
  system denied its removal; an upload that succeeds has read the stream to its end, the
  final path holds exactly the bytes of the stream, and the temporary path is gone.
\<close>

theorem upload_atomic:
  assumes "prepare_upload s ed file up rel = Some (Inr (dest, full), s1)"
      and "save_uploaded_file s ed file up rel = Some (r, s')"
  shows "(\<forall>e. r = Inl e \<longrightarrow>
            \<not> os_path_exists s' full
            \<and> (\<not> is_file s' (full @ ''.tmp'') \<or> removal_denied s' (full @ ''.tmp'')))
       \<and> (\<forall>d. r = Inr d \<longrightarrow>
            d = dest \<and> complete (stream file)
            \<and> stat s' full = Some (File (payload (stream file)))
            \<and> \<not> os_path_exists s' (full @ ''.tmp''))"
proof -
  from assms have w: "write_and_commit s1 dest full (stream file) = (r, s')"
    by (simp add: save_uploaded_file_def)
  note free = prepare_upload_free [OF assms(1)]
  show ?thesis
  proof (cases r)
    case (Inl e)
    with write_and_commit_failure [of s1 dest full "stream file" e s'] w free
    show ?thesis by (simp add: os_path_exists_def)
  next
    case (Inr d)
    with write_and_commit_success [of s1 dest full "stream file" d s'] w
    show ?thesis by simp
  qed
qed

lemma sticky_temp_paths:
  "os_path_exists sticky_temp ''/opt/app/homedrive_storage''"
  "\<not> os_path_exists sticky_temp ''/opt/app/homedrive_storage/a.txt''"
  by (simp_all add: sticky_temp_def low_space_def fs_defs)

lemma prepare_broken_stream:
  assumes "os_path_exists s ''/opt/app/homedrive_storage''"
      and "\<not> os_path_exists s ''/opt/app/homedrive_storage/a.txt''"
  shows "prepare_upload s ''/opt/app'' broken_stream [] None
         = Some (Inr (''a.txt'', ''/opt/app/homedrive_storage/a.txt''), s)"
proof -
  have "free_upload_name s ''/opt/app'' [] ''a'' ''.txt'' 1
          (''a.txt'', ''/opt/app/homedrive_storage/a.txt'')
        = Some (Inr (''a.txt'', ''/opt/app/homedrive_storage/a.txt''))"
    by (subst free_upload_name.simps) (simp add: assms)
  then show ?thesis
    by (simp add: prepare_upload_def broken_stream_def upload_name_a_txt
        MAX_FILENAME_LENGTH_def full_path_a_txt dirname_a_txt assms splitext_a_txt Let_def)
qed

lemma stream_broken_stream: "stream broken_stream = [Chunk ''hello'', ReadFails]"
  by (simp add: broken_stream_def)

lemma sticky_temp_commit:
  "write_and_commit sticky_temp ''a.txt'' ''/opt/app/homedrive_storage/a.txt''
     [Chunk ''hello'', ReadFails]
   = (Inl (ValueError ''Cannot save file''),
      sticky_temp\<lparr>nodes := nodes sticky_temp @
                     [([''opt'', ''app'', ''homedrive_storage'', ''a.txt.tmp''], File ''hello'')],
                   disk_free := 52428795\<rparr>)"
  by (simp add: write_and_commit_def write_then_rename_def discard_temp_def sticky_temp_def
      low_space_def fs_defs)

lemma low_space_broken_commit:
  "write_and_commit low_space ''a.txt'' ''/opt/app/homedrive_storage/a.txt''
     [Chunk ''hello'', ReadFails]
   = (Inl (ValueError ''Cannot save file''), low_space)"
  by (simp add: write_and_commit_def write_then_rename_def discard_temp_def
      low_space_def fs_defs)

text \<open>
  C2 as stated fails: the handler ignores a failure of \<open>os.remove\<close>. When the stream fails
  after five bytes and the removal of the temporary file is denied, the upload is refused and
  the temporary file stays, with the five bytes.
\<close>

theorem temp_file_left_behind:
  "save_uploaded_file sticky_temp ''/opt/app'' broken_stream [] None
     = Some (Inl (ValueError ''Cannot save file''),
             sticky_temp\<lparr>nodes := nodes sticky_temp @
                     [([''opt'', ''app'', ''homedrive_storage'', ''a.txt.tmp''], File ''hello'')],
                   disk_free := 52428795\<rparr>)
   \<and> stat (sticky_temp\<lparr>nodes := nodes sticky_temp @
                     [([''opt'', ''app'', ''homedrive_storage'', ''a.txt.tmp''], File ''hello'')],
                   disk_free := 52428795\<rparr>) ''/opt/app/homedrive_storage/a.txt.tmp''
       = Some (File ''hello'')"
proof -
  have "stat (sticky_temp\<lparr>nodes := nodes sticky_temp @
                     [([''opt'', ''app'', ''homedrive_storage'', ''a.txt.tmp''], File ''hello'')],
                   disk_free := 52428795\<rparr>) ''/opt/app/homedrive_storage/a.txt.tmp''
       = Some (File ''hello'')"
    by (simp add: sticky_temp_def low_space_def fs_defs)
  then show ?thesis
    by (simp add: save_uploaded_file_def prepare_broken_stream [OF sticky_temp_paths]
        sticky_temp_commit stream_broken_stream)
qed

theorem upload_atomic_witness:
  "prepare_upload low_space ''/opt/app'' broken_stream [] None
     = Some (Inr (''a.txt'', ''/opt/app/homedrive_storage/a.txt''), low_space)
   \<and> save_uploaded_file low_space ''/opt/app'' broken_stream [] None
     = Some (Inl (ValueError ''Cannot save file''), low_space)
   \<and> \<not> os_path_exists low_space ''/opt/app/homedrive_storage/a.txt''
   \<and> \<not> is_file low_space ''/opt/app/homedrive_storage/a.txt.tmp''"
proof -
  note p = prepare_broken_stream [OF low_space_paths]
  have s: "save_uploaded_file low_space ''/opt/app'' broken_stream [] None
           = Some (Inl (ValueError ''Cannot save file''), low_space)"
    by (simp add: save_uploaded_file_def p stream_broken_stream low_space_broken_commit)
  have "\<not> removal_denied low_space ''/opt/app/homedrive_storage/a.txt.tmp''"
    by (simp add: removal_denied_def low_space_def fs_defs)
  with upload_atomic [OF p s] p s show ?thesis by simp
qed

section \<open>Collision handling\<close>

text \<open>\<open>os.makedirs\<close> that succeeds leaves a directory where the path leads.\<close>

lemma mkdirs_reaches:
  assumes "\<forall>i \<le> length cur. lookup t (take i cur) = Some Dir"
      and "mkdirs t cur cs = (t', Some k)"
  shows "namei t' cur cs = Some k \<and> lookup t' k = Some Dir
         \<and> (\<forall>q n. lookup t q = Some n \<longrightarrow> lookup t' q = Some n)"
  using assms
proof (induction cs arbitrary: t cur)
  case Nil
  then show ?case by auto
next
  case (Cons c cs)
  from Cons.prems(1) have here: "lookup t cur = Some Dir" by auto
  show ?case
  proof (cases "c = [] \<or> c = ''.''")
    case True
    with Cons.prems(2) have m: "mkdirs t cur cs = (t', Some k)" by auto
    from Cons.IH [OF Cons.prems(1) m] here True show ?thesis by auto
  next
    case False
    note plainc = False
    show ?thesis
    proof (cases "c = ''..''")
      case True
      with Cons.prems(2) have m: "mkdirs t (butlast cur) cs = (t', Some k)" by simp
      have "\<forall>i \<le> length (butlast cur). lookup t (take i (butlast cur)) = Some Dir"
        using Cons.prems(1) by (auto simp: butlast_conv_take min_absorb1)
      from Cons.IH [OF this m] here True show ?thesis by auto
    next
      case False
      show ?thesis
      proof (cases "lookup t (cur @ [c])")
        case None
        let ?t2 = "t @ [(cur @ [c], Dir)]"
        from None plainc False Cons.prems(2)
        have m: "mkdirs ?t2 (cur @ [c]) cs = (t', Some k)" by simp
        have mono: "lookup t q = Some n \<Longrightarrow> lookup ?t2 q = Some n" for q n
          by (simp add: lookup_append)
        have "\<forall>i \<le> length (cur @ [c]). lookup ?t2 (take i (cur @ [c])) = Some Dir"
        proof (intro allI impI)
          fix i assume "i \<le> length (cur @ [c])"
          then consider "i \<le> length cur" | "i = Suc (length cur)" by fastforce
          then show "lookup ?t2 (take i (cur @ [c])) = Some Dir"
          proof cases
            case 1
            with Cons.prems(1) show ?thesis by (simp add: mono)
          next
            case 2
            with None show ?thesis by (simp add: lookup_snoc_new)
          qed
        qed
        from Cons.IH [OF this m] here plainc False mono show ?thesis by auto
      next
        case (Some n)
        show ?thesis
        proof (cases n)
          case Dir
          with Some plainc False Cons.prems(2)
          have m: "mkdirs t (cur @ [c]) cs = (t', Some k)" by simp
          have "\<forall>i \<le> length (cur @ [c]). lookup t (take i (cur @ [c])) = Some Dir"
          proof (intro allI impI)
            fix i assume "i \<le> length (cur @ [c])"
            then consider "i \<le> length cur" | "i = Suc (length cur)" by fastforce
            then show "lookup t (take i (cur @ [c])) = Some Dir"
            proof cases
              case 1
              with Cons.prems(1) show ?thesis by simp
            next
              case 2
              with Some Dir show ?thesis by simp
            qed
          qed
          from Cons.IH [OF this m] here plainc False show ?thesis by auto
        next
          case (File b)
          with Some plainc False Cons.prems(2) show ?thesis by simp
        qed
      qed
    qed
  qed
qed

lemma makedirs_exists:
  assumes "os_makedirs s p ok = (None, s')"
  shows "os_path_isdir s' p"
proof -
  from assms have p: "p \<noteq> []" by (auto simp: os_makedirs_def split: if_splits)
  from assms obtain k where m: "mkdirs (nodes s) [] (split_on CHR ''/'' p) = (nodes s', Some k)"
    by (auto simp: os_makedirs_def split: if_splits prod.splits option.splits)
  have "\<forall>i \<le> length ([] :: string list). lookup (nodes s) (take i []) = Some Dir"
    by (simp add: lookup_root)
  from mkdirs_reaches [OF this m] p show ?thesis
    by (simp add: os_path_isdir_def stat_def locate_def)
qed

text \<open>
  When \<open>create_folder\<close> has made a folder, a second call in the same parent
  with a name that sanitises to the same name is refused and creates nothing.
\<close>

lemma create_folder_twice:
  assumes "create_folder s ed up n1 = (Inr p, s1)"
      and "secure_filename n2 = secure_filename n1"
  shows "create_folder s1 ed up n2 = (Inl (ValueError ''Folder already exists''), s1)"
proof -
  let ?n = "secure_filename n1"
  let ?new = "if up \<noteq> [] then os_path_join up ?n else ?n"
  from assms(1) have n: "?n \<noteq> []" "\<not> length ?n > MAX_FILENAME_LENGTH"
    by (auto simp: create_folder_def Let_def split: if_splits)
  with assms(1) obtain full where f: "full_path_of ed ?new = Inr full"
    and m: "os_makedirs s full False = (None, s1)"
    by (auto simp: create_folder_def Let_def split: if_splits sum.splits prod.splits option.splits)
  from makedirs_exists [OF m] have "os_path_exists s1 full"
    by (simp add: os_path_isdir_def os_path_exists_def)
  with n f assms(2) show ?thesis
    by (simp add: create_folder_def Let_def)
qed

text \<open>The full paths of the names in one folder share everything up to the name.\<close>

lemma full_path_of_result:
  "full_path_of ed p = Inr full \<Longrightarrow> p \<noteq> [] \<Longrightarrow> full = os_path_join (BASE_DIR ed) p"
  by (auto simp: full_path_of_def get_full_path_def split: sum.splits if_splits)

lemma plain_not_absolute: "plain n \<Longrightarrow> \<not> startswith (n @ x) ''/'' \<and> n \<noteq> []"
  by (cases n) (auto simp: plain_def startswith_def)

lemma endswith_snoc: "endswith (a @ [c]) [c]"
  by (simp add: endswith_def)

lemma startswith_append: "a \<noteq> [] \<Longrightarrow> startswith (a @ b) ''/'' = startswith a ''/''"
  by (cases a) (auto simp: startswith_def)

lemma upload_paths:
  obtains Q where "endswith Q ''/''"
    and "\<And>n full. plain n \<Longrightarrow> full_path_of ed (upload_target up n) = Inr full
            \<Longrightarrow> full = Q @ n"
proof -
  define U where "U = (if up = [] then [] else if endswith up ''/'' then up else up @ ''/'')"
  define B where "B = (if endswith (BASE_DIR ed) ''/'' then BASE_DIR ed else BASE_DIR ed @ ''/'')"
  define Q where "Q = (if startswith U ''/'' then U else B @ U)"
  have base: "BASE_DIR ed \<noteq> []" by (simp add: BASE_DIR_def os_path_join_def)
  have u: "U = [] \<or> endswith U ''/''" by (auto simp: U_def endswith_def)
  have b: "endswith B ''/''" by (auto simp: B_def endswith_def)
  have q: "endswith Q ''/''"
  proof (cases "U = []")
    case True
    with b show ?thesis by (simp add: Q_def startswith_def)
  next
    case False
    with u have "endswith U ''/''" by simp
    then have "endswith (B @ U) ''/''" by (auto simp: endswith_def)
    with \<open>endswith U ''/''\<close> show ?thesis by (simp add: Q_def)
  qed
  have "full = Q @ n" if n: "plain n" and f: "full_path_of ed (upload_target up n) = Inr full"
    for n full
  proof -
    note pn = plain_not_absolute [OF n, of "[]", simplified]
    from pn have t: "upload_target up n = U @ n"
      by (auto simp: upload_target_def U_def os_path_join_def)
    from pn have ne: "U @ n \<noteq> []" by simp
    have abs: "startswith (U @ n) ''/'' = startswith U ''/''"
    proof (cases "U = []")
      case True
      with pn show ?thesis by (simp add: startswith_def)
    next
      case False
      then show ?thesis by (rule startswith_append)
    qed
    from full_path_of_result [OF f [unfolded t] ne]
    show ?thesis using base abs by (auto simp: os_path_join_def Q_def B_def)
  qed
  with q show thesis by (rule that)
qed

lemma locate_sibling:
  assumes "endswith Q ''/''" and "plain n"
  shows "locate s (Q @ n) =
           (case namei (nodes s) [] (butlast (split_on CHR ''/'' Q)) of
              None \<Rightarrow> None
            | Some cur \<Rightarrow> if lookup (nodes s) cur = Some Dir then Some (cur @ [n]) else None)"
proof -
  from assms(2) have n: "CHR ''/'' \<notin> set n" "n \<noteq> []" by (simp_all add: plain_def)
  from n(1) have "split_on CHR ''/'' (Q @ n)
      = butlast (split_on CHR ''/'' Q) @ [last (split_on CHR ''/'' Q) @ n]"
    by (rule split_on_suffix)
  with endswith_slash_split [OF assms(1)]
  have "split_on CHR ''/'' (Q @ n) = butlast (split_on CHR ''/'' Q) @ [n]" by simp
  with n(2) assms(2) show ?thesis
    by (simp add: locate_def namei_append plain_def split: option.split)
qed

text \<open>The directory part of such a path leads to the folder.\<close>

lemma dirname_sibling:
  assumes "endswith Q ''/''" and "CHR ''/'' \<notin> set n"
  shows "os_path_dirname (Q @ n) = (if list_all (\<lambda>c. c = CHR ''/'') Q then Q else rstrip_sep Q)"
proof -
  from endswith_single [OF assms(1)] have q: "Q \<noteq> []" "last Q = CHR ''/''" by simp_all
  then obtain r where r: "rev Q = CHR ''/'' # r" by (cases Q rule: rev_cases) auto
  have "dropWhile (\<lambda>c. c \<noteq> CHR ''/'') (rev n @ rev Q) = dropWhile (\<lambda>c. c \<noteq> CHR ''/'') (rev Q)"
    using assms(2) by (intro dropWhile_append2) auto
  also have "\<dots> = rev Q" by (simp add: r)
  finally have "rev (dropWhile (\<lambda>c. c \<noteq> CHR ''/'') (rev (Q @ n))) = Q" by simp
  with q(1) show ?thesis
    by (simp add: os_path_dirname_def head_of_def rstrip_sep_def Let_def)
qed

lemma split_on_slashes:
  "list_all (\<lambda>c. c = CHR ''/'') z \<Longrightarrow> split_on CHR ''/'' z = replicate (Suc (length z)) []"
  by (induction z) auto

lemma split_on_trailing_slashes:
  assumes "list_all (\<lambda>c. c = CHR ''/'') z" and "z \<noteq> []"
  shows "butlast (split_on CHR ''/'' (R @ z)) = split_on CHR ''/'' R @ replicate (length z - 1) []"
proof -
  from assms obtain z' where z: "z = CHR ''/'' # z'" and a: "list_all (\<lambda>c. c = CHR ''/'') z'"
    by (cases z) auto
  have "split_on CHR ''/'' (R @ z) = split_on CHR ''/'' R @ replicate (length z') [] @ [[]]"
    by (simp add: z split_on_append split_on_slashes [OF a] replicate_append_same)
  then have "butlast (split_on CHR ''/'' (R @ z)) = split_on CHR ''/'' R @ replicate (length z') []"
    by (simp add: butlast_append)
  with z show ?thesis by simp
qed

lemma namei_empty_components:
  "lookup t cur = Some Dir \<Longrightarrow> namei t cur (replicate m []) = Some cur"
  by (induction m) auto

lemma folder_of_target:
  assumes "endswith Q ''/''" and "plain n" and "os_path_isdir s (os_path_dirname (Q @ n))"
  shows "\<exists>cur. namei (nodes s) [] (butlast (split_on CHR ''/'' Q)) = Some cur
               \<and> lookup (nodes s) cur = Some Dir"
proof -
  from assms(2) have n: "CHR ''/'' \<notin> set n" by (simp add: plain_def)
  from endswith_single [OF assms(1)] have q: "Q \<noteq> []" "last Q = CHR ''/''" by simp_all
  show ?thesis
  proof (cases "list_all (\<lambda>c. c = CHR ''/'') Q")
    case True
    from split_on_trailing_slashes [OF True q(1), of "[]"]
    have "butlast (split_on CHR ''/'' Q) = replicate (length Q) []"
      using q(1) by (cases Q) (simp_all add: replicate_append_same)
    then show ?thesis by (simp add: namei_empty_components lookup_root)
  next
    case False
    define R where "R = rstrip_sep Q"
    define z where "z = rev (takeWhile (\<lambda>c. c = CHR ''/'') (rev Q))"
    have Q: "Q = R @ z"
      unfolding R_def z_def rstrip_sep_def
      by (metis rev_append rev_rev_ident takeWhile_dropWhile_id)
    have za: "list_all (\<lambda>c. c = CHR ''/'') z"
      unfolding z_def list_all_iff by (auto dest: set_takeWhileD)
    from q have zn: "z \<noteq> []"
      unfolding z_def by (cases Q rule: rev_cases) auto
    from False Q za have rn: "R \<noteq> []" by auto
    from assms(3) dirname_sibling [OF assms(1) n] False
    have "os_path_isdir s R" by (simp add: R_def)
    with rn obtain cur where c: "namei (nodes s) [] (split_on CHR ''/'' R) = Some cur"
      and d: "lookup (nodes s) cur = Some Dir"
      by (auto simp: os_path_isdir_def stat_def locate_def split: option.splits)
    have "butlast (split_on CHR ''/'' Q) = split_on CHR ''/'' R @ replicate (length z - 1) []"
      unfolding Q by (rule split_on_trailing_slashes [OF za zn])
    with c d show ?thesis by (simp add: namei_append namei_empty_components)
  qed
qed

text \<open>An upload of a complete stream that fits on the disk goes through.\<close>

lemma lookup_update_fun: "k \<noteq> [] \<Longrightarrow> lookup (AList.update k v t) = (lookup t)(k := Some v)"
  by (rule ext) (simp add: lookup_update)

lemma lookup_delete_fun: "k \<noteq> [] \<Longrightarrow> lookup (AList.delete k t) = (lookup t)(k := None)"
  by (rule ext) (simp add: lookup_delete)

lemma write_stream_total:
  "complete st \<Longrightarrow> length (payload st) \<le> disk_free s
     \<Longrightarrow> lookup (nodes s) k = Some (File c0)
     \<Longrightarrow> \<exists>s'. write_stream s k st = (None, s')
              \<and> lookup (nodes s') = (lookup (nodes s))(k := Some (File (c0 @ payload st)))
              \<and> disk_free s' + length (payload st) = disk_free s
              \<and> undeletable s' = undeletable s"
proof (induction s k st arbitrary: c0 rule: write_stream.induct)
  case (1 s k)
  then show ?case by (auto simp: fun_upd_idem)
next
  case (2 s k rest)
  then show ?case by simp
next
  case (3 s k c rest)
  from 3(4) have k: "k \<noteq> []" by (auto simp: lookup_root)
  show ?case
  proof (cases "c = []")
    case True
    with 3(4) show ?thesis by (auto simp: fun_upd_idem)
  next
    case False
    define s1 where "s1 = s\<lparr>nodes := AList.update k (File (c0 @ c)) (nodes s),
                               disk_free := disk_free s - length c\<rparr>"
    from False 3(3) have fits: "length c \<le> disk_free s" by simp
    with 3(4) have w: "file_write s k c = Inr s1" by (simp add: file_write_def s1_def)
    from k have l1: "lookup (nodes s1) = (lookup (nodes s))(k := Some (File (c0 @ c)))"
      by (simp add: s1_def lookup_update_fun)
    from False 3(2) have c: "complete rest" by simp
    from False 3(3) fits have d: "length (payload rest) \<le> disk_free s1" by (simp add: s1_def)
    from l1 have f: "lookup (nodes s1) k = Some (File (c0 @ c))" by simp
    from 3(1) [OF False w c d f] obtain s' where
      r: "write_stream s1 k rest = (None, s')"
      and l: "lookup (nodes s') = (lookup (nodes s1))(k := Some (File ((c0 @ c) @ payload rest)))"
      and df: "disk_free s' + length (payload rest) = disk_free s1"
      and u: "undeletable s' = undeletable s1" by blast
    from False w r have "write_stream s k (Chunk c # rest) = (None, s')" by simp
    moreover from l l1 False
    have "lookup (nodes s') = (lookup (nodes s))(k := Some (File (c0 @ payload (Chunk c # rest))))"
      by simp
    moreover from df fits False
    have "disk_free s' + length (payload (Chunk c # rest)) = disk_free s" by (simp add: s1_def)
    moreover from u have "undeletable s' = undeletable s" by (simp add: s1_def)
    ultimately show ?thesis by blast
  qed
qed

lemma plain_tmp: "plain n \<Longrightarrow> plain (n @ ''.tmp'')"
  by (auto simp: plain_def dest: arg_cong [where f = length])

lemma write_and_commit_total:
  assumes Q: "endswith Q ''/''" and n: "plain n"
    and folder: "namei (nodes s) [] (butlast (split_on CHR ''/'' Q)) = Some cur"
                "lookup (nodes s) cur = Some Dir"
    and free: "lookup (nodes s) (cur @ [n]) = None"
    and tmp: "lookup (nodes s) (cur @ [n @ ''.tmp'']) \<noteq> Some Dir"
             "cur @ [n @ ''.tmp''] \<notin> set (undeletable s)"
    and st: "complete st" "length (payload st) \<le> disk_free s"
  shows "\<exists>s'. write_and_commit s dest (Q @ n) st = (Inr dest, s')
            \<and> lookup (nodes s') =
                (lookup (nodes s))(cur @ [n @ ''.tmp''] := None,
                                   cur @ [n] := Some (File (payload st)))
            \<and> disk_free s \<le> disk_free s' + length (payload st)
            \<and> undeletable s' = undeletable s"
proof -
  let ?kt = "cur @ [n @ ''.tmp'']" and ?kd = "cur @ [n]"
  let ?temp = "Q @ n @ ''.tmp''"
  have loc: "locate x (Q @ n) = Some ?kd" "locate x ?temp = Some ?kt"
    if "\<And>q. (lookup (nodes x) q = Some Dir) = (lookup (nodes s) q = Some Dir)" for x
  proof -
    from that have e: "locate x p = locate s p" for p by (rule locate_cong)
    from folder show "locate x (Q @ n) = Some ?kd" "locate x ?temp = Some ?kt"
      unfolding e
      by (simp_all add: locate_sibling [OF Q n] locate_sibling [OF Q plain_tmp [OF n]])
  qed
  define s1 where "s1 = (case lookup (nodes s) ?kt of
       Some (File c) \<Rightarrow> s\<lparr>nodes := AList.update ?kt (File []) (nodes s),
                              disk_free := disk_free s + length c\<rparr>
     | _ \<Rightarrow> s\<lparr>nodes := AList.update ?kt (File []) (nodes s)\<rparr>)"
  from tmp loc(2) [of s] have o: "open_wb s ?temp = Inr (?kt, s1)"
    by (auto simp: open_wb_def s1_def split: option.splits node.splits)
  have l1: "lookup (nodes s1) = (lookup (nodes s))(?kt := Some (File []))"
    and d1: "disk_free s \<le> disk_free s1" and u1: "undeletable s1 = undeletable s"
    by (auto simp: s1_def lookup_update_fun split: option.splits node.splits)
  from st(2) d1 have "length (payload st) \<le> disk_free s1" by simp
  from write_stream_total [OF st(1) this, of ?kt "[]"] l1 obtain s2 where
    w: "write_stream s1 ?kt st = (None, s2)"
    and l2: "lookup (nodes s2) = (lookup (nodes s))(?kt := Some (File (payload st)))"
    and d2: "disk_free s2 + length (payload st) = disk_free s1"
    and u2: "undeletable s2 = undeletable s1" by auto
  have dirs: "(lookup (nodes s2) q = Some Dir) = (lookup (nodes s) q = Some Dir)" for q
    using tmp by (simp add: l2)
  note loc2 = loc [of s2, OF dirs]
  define s3 where
    "s3 = s2\<lparr>nodes := AList.update ?kd (File (payload st)) (AList.delete ?kt (nodes s2))\<rparr>"
  from free have kd: "lookup (nodes s2) ?kd = None" by (simp add: l2)
  from tmp(2) have r: "os_replace s2 ?temp (Q @ n) = Inr s3"
    by (simp add: os_replace_def loc2 l2 free s3_def u1 u2)
  have "lookup (nodes s3) = (lookup (nodes s))(?kt := None, ?kd := Some (File (payload st)))"
    by (simp add: s3_def lookup_update_fun lookup_delete_fun l2)
  moreover from d1 d2 have "disk_free s \<le> disk_free s3 + length (payload st)"
    by (simp add: s3_def)
  moreover have "undeletable s3 = undeletable s" by (simp add: s3_def u1 u2)
  moreover from o w r have "write_and_commit s dest (Q @ n) st = (Inr dest, s3)"
    by (simp add: write_and_commit_def write_then_rename_def)
  ultimately show ?thesis by blast
qed

text \<open>The name that \<open>save_uploaded_file\<close> settles on for an upload called \<open>a.txt\<close>.\<close>

lemma upload_name_plain: "filename f = ''a.txt'' \<Longrightarrow> upload_name f up None = Inr (''a.txt'', up)"
  by (simp add: upload_name_def name_defs)

lemma str_nat_one: "str_nat (Suc 0) = ''1''"
  by (simp add: str_nat.simps digit_char_def)

lemma prepare_first:
  assumes "filename f = ''a.txt''"
    and "full_path_of ed (upload_target up ''a.txt'') = Inr full0"
    and "os_path_isdir s (os_path_dirname full0)"
    and "\<not> os_path_exists s full0"
  shows "prepare_upload s ed f up None = Some (Inr (upload_target up ''a.txt'', full0), s)"
proof -
  from assms(3) have p: "os_path_exists s (os_path_dirname full0)"
    by (simp add: os_path_isdir_def os_path_exists_def)
  have "free_upload_name s ed up ''a'' ''.txt'' (Suc 0) (upload_target up ''a.txt'', full0)
        = Some (Inr (upload_target up ''a.txt'', full0))"
    by (subst free_upload_name.simps) (simp add: assms(4))
  with assms(2) p show ?thesis
    by (simp add: prepare_upload_def upload_name_plain [OF assms(1)] MAX_FILENAME_LENGTH_def
        splitext_a_txt Let_def upload_target_def [symmetric])
qed

lemma prepare_second:
  assumes "filename f = ''a.txt''"
    and "full_path_of ed (upload_target up ''a.txt'') = Inr full0"
    and "full_path_of ed (upload_target up ''a_1.txt'') = Inr full1"
    and "os_path_isdir s (os_path_dirname full0)"
    and "os_path_exists s full0" and "\<not> os_path_exists s full1"
  shows "prepare_upload s ed f up None = Some (Inr (upload_target up ''a_1.txt'', full1), s)"
proof -
  from assms(4) have p: "os_path_exists s (os_path_dirname full0)"
    by (simp add: os_path_isdir_def os_path_exists_def)
  have "free_upload_name s ed up ''a'' ''.txt'' (Suc (Suc 0)) (upload_target up ''a_1.txt'', full1)
        = Some (Inr (upload_target up ''a_1.txt'', full1))"
    by (subst free_upload_name.simps) (simp add: assms(6))
  then have "free_upload_name s ed up ''a'' ''.txt'' (Suc 0) (upload_target up ''a.txt'', full0)
        = Some (Inr (upload_target up ''a_1.txt'', full1))"
    using assms(3,5)
    by (subst free_upload_name.simps)
       (simp add: str_nat_one Let_def upload_target_def [symmetric])
  with assms(2) p show ?thesis
    by (simp add: prepare_upload_def upload_name_plain [OF assms(1)] MAX_FILENAME_LENGTH_def
        splitext_a_txt Let_def upload_target_def [symmetric])
qed

lemma plain_a_names:
  "plain ''a.txt''" "plain ''a_1.txt''"
  by (simp_all add: plain_def)

lemma isdir_cong:
  assumes "\<And>q. (lookup (nodes s') q = Some Dir) = (lookup (nodes s) q = Some Dir)"
  shows "os_path_isdir s' p = os_path_isdir s p"
  using assms by (simp add: os_path_isdir_def stat_def locate_cong [OF assms] split: option.splits)

text \<open>
  Without a relative path: in a folder that holds neither \<open>a.txt\<close> nor \<open>a_1.txt\<close>,
  two uploads named \<open>a.txt\<close> whose streams are complete and fit on the disk, and whose
  temporary files may be renamed, both succeed, the first as \<open>a.txt\<close> and the second as
  \<open>a_1.txt\<close>, and both files are on the disk afterwards.
\<close>

lemma upload_twice:
  assumes names: "filename f1 = ''a.txt''" "filename f2 = ''a.txt''"
    and paths: "full_path_of ed (upload_target up ''a.txt'') = Inr full0"
               "full_path_of ed (upload_target up ''a_1.txt'') = Inr full1"
    and folder: "os_path_isdir t (os_path_dirname full0)"
    and free: "\<not> os_path_exists t full0" "\<not> os_path_exists t full1"
    and tmp: "\<not> os_path_isdir t (full0 @ ''.tmp'')" "\<not> os_path_isdir t (full1 @ ''.tmp'')"
    and rename: "\<not> removal_denied t (full0 @ ''.tmp'')"
                "\<not> removal_denied t (full1 @ ''.tmp'')"
    and streams: "complete (stream f1)" "complete (stream f2)"
    and space: "length (payload (stream f1)) + length (payload (stream f2)) \<le> disk_free t"
  shows "\<exists>t1 t2. save_uploaded_file t ed f1 up None = Some (Inr (upload_target up ''a.txt''), t1)
              \<and> save_uploaded_file t1 ed f2 up None = Some (Inr (upload_target up ''a_1.txt''), t2)
              \<and> stat t2 full0 = Some (File (payload (stream f1)))
              \<and> stat t2 full1 = Some (File (payload (stream f2)))"
proof -
  obtain Q where Q: "endswith Q ''/''"
    and full: "\<And>n full. plain n \<Longrightarrow> full_path_of ed (upload_target up n) = Inr full
                 \<Longrightarrow> full = Q @ n"
    by (rule upload_paths [of ed up]) blast
  from full [OF plain_a_names(1) paths(1)] have f0: "full0 = Q @ ''a.txt''" .
  from full [OF plain_a_names(2) paths(2)] have f1: "full1 = Q @ ''a_1.txt''" .
  from folder_of_target [OF Q plain_a_names(1) folder [unfolded f0]]
  obtain cur where cur: "namei (nodes t) [] (butlast (split_on CHR ''/'' Q)) = Some cur"
    "lookup (nodes t) cur = Some Dir" by blast
  let ?k0 = "cur @ [''a.txt'']" and ?k1 = "cur @ [''a_1.txt'']"
  let ?kt0 = "cur @ [''a.txt.tmp'']" and ?kt1 = "cur @ [''a_1.txt.tmp'']"
  have loc: "locate x (Q @ n) = Some (cur @ [n])"
    if "plain n" "\<And>q. (lookup (nodes x) q = Some Dir) = (lookup (nodes t) q = Some Dir)"
    for x n
  proof -
    from that(2) have e: "locate x p = locate t p" for p by (rule locate_cong)
    from cur show ?thesis unfolding e by (simp add: locate_sibling [OF Q that(1)])
  qed
  note pt = plain_tmp [OF plain_a_names(1), simplified] plain_tmp [OF plain_a_names(2), simplified]
  from free tmp rename have init:
    "lookup (nodes t) ?k0 = None" "lookup (nodes t) ?k1 = None"
    "lookup (nodes t) ?kt0 \<noteq> Some Dir" "lookup (nodes t) ?kt1 \<noteq> Some Dir"
    "?kt0 \<notin> set (undeletable t)" "?kt1 \<notin> set (undeletable t)"
    using loc [of "''a.txt''" t] loc [of "''a_1.txt''" t]
      loc [of "''a.txt.tmp''" t] loc [of "''a_1.txt.tmp''" t]
    by (simp_all add: f0 f1 os_path_exists_def os_path_isdir_def stat_def plain_a_names pt
        removal_denied_def)
  from space have sp: "length (payload (stream f1)) \<le> disk_free t" by simp
  from write_and_commit_total [OF Q plain_a_names(1) cur, of "stream f1" "upload_target up ''a.txt''"]
    init streams(1) sp
  obtain t1 where w1: "write_and_commit t (upload_target up ''a.txt'') full0 (stream f1)
                       = (Inr (upload_target up ''a.txt''), t1)"
    and l1: "lookup (nodes t1) =
               (lookup (nodes t))(?kt0 := None, ?k0 := Some (File (payload (stream f1))))"
    and d1: "disk_free t \<le> disk_free t1 + length (payload (stream f1))"
    and u1: "undeletable t1 = undeletable t"
    by (auto simp: f0)
  from prepare_first [OF names(1) paths(1) folder free(1)] w1
  have s1: "save_uploaded_file t ed f1 up None = Some (Inr (upload_target up ''a.txt''), t1)"
    by (simp add: save_uploaded_file_def)
  have dirs1: "(lookup (nodes t1) q = Some Dir) = (lookup (nodes t) q = Some Dir)" for q
    using init by (simp add: l1)
  have cur1: "namei (nodes t1) [] (butlast (split_on CHR ''/'' Q)) = Some cur"
    "lookup (nodes t1) cur = Some Dir"
    using cur namei_cong [of "nodes t1" "nodes t", OF dirs1] dirs1 by simp_all
  have folder1: "os_path_isdir t1 (os_path_dirname full0)"
    using folder isdir_cong [OF dirs1] by simp
  have ex1: "os_path_exists t1 full0" "\<not> os_path_exists t1 full1"
    using init loc [OF plain_a_names(1) dirs1] loc [OF plain_a_names(2) dirs1]
    by (simp_all add: f0 f1 os_path_exists_def stat_def l1)
  have init1: "lookup (nodes t1) ?k1 = None" "lookup (nodes t1) ?kt1 \<noteq> Some Dir"
    "?kt1 \<notin> set (undeletable t1)"
    using init by (simp_all add: l1 u1)
  from space d1 have sp1: "length (payload (stream f2)) \<le> disk_free t1" by simp
  from write_and_commit_total [OF Q plain_a_names(2) cur1, of "stream f2" "upload_target up ''a_1.txt''"]
    init1 streams(2) sp1
  obtain t2 where w2: "write_and_commit t1 (upload_target up ''a_1.txt'') full1 (stream f2)
                       = (Inr (upload_target up ''a_1.txt''), t2)"
    and l2: "lookup (nodes t2) =
               (lookup (nodes t1))(?kt1 := None, ?k1 := Some (File (payload (stream f2))))"
    by (auto simp: f1)
  from prepare_second [OF names(2) paths folder1 ex1] w2
  have s2: "save_uploaded_file t1 ed f2 up None = Some (Inr (upload_target up ''a_1.txt''), t2)"
    by (simp add: save_uploaded_file_def)
  have dirs2: "(lookup (nodes t2) q = Some Dir) = (lookup (nodes t) q = Some Dir)" for q
    using init by (simp add: l2 l1)
  have "stat t2 full0 = Some (File (payload (stream f1)))"
    using loc [OF plain_a_names(1) dirs2] by (simp add: f0 stat_def l2 l1)
  moreover have "stat t2 full1 = Some (File (payload (stream f2)))"
    using loc [OF plain_a_names(2) dirs2] by (simp add: f1 stat_def l2 l1)
  ultimately show ?thesis using s1 s2 by blast
qed

section \<open>Collision in a folder upload\<close>

lemma upload_name_photos:
  "upload_name ten_bytes [] (Some ''Photos/a.txt'') = Inr (''a.txt'', ''Photos'')"
  by (simp add: upload_name_def ten_bytes_def name_defs path_defs)

lemma photos_paths:
  "os_path_join ''Photos'' ''a.txt'' = ''Photos/a.txt''"
  "full_path_of ''/opt/app'' ''Photos/a.txt'' = Inr ''/opt/app/homedrive_storage/Photos/a.txt''"
  "os_path_dirname ''/opt/app/homedrive_storage/Photos/a.txt''
     = ''/opt/app/homedrive_storage/Photos''"
  by (simp_all add: guard_defs path_defs)

lemma full_path_a_1_txt:
  "full_path_of ''/opt/app'' ''a_1.txt'' = Inr ''/opt/app/homedrive_storage/a_1.txt''"
  by (simp add: guard_defs path_defs)

lemma photos_made_facts:
  "os_path_exists photos_made ''/opt/app/homedrive_storage/Photos''"
  "\<not> os_path_exists photos_made ''/opt/app/homedrive_storage/Photos/a.txt''"
  by (simp_all add: photos_made_def low_space_def fs_defs)

lemma photos_first_facts:
  "os_path_exists photos_first ''/opt/app/homedrive_storage/Photos''"
  "os_path_exists photos_first ''/opt/app/homedrive_storage/Photos/a.txt''"
  "\<not> os_path_exists photos_first ''/opt/app/homedrive_storage/a_1.txt''"
  by (simp_all add: photos_first_def photos_made_def low_space_def fs_defs)

lemma photos_first_commit:
  "write_and_commit photos_made ''Photos/a.txt'' ''/opt/app/homedrive_storage/Photos/a.txt''
     [Chunk ''helloworld''] = (Inr ''Photos/a.txt'', photos_first)"
  by (simp add: write_and_commit_def write_then_rename_def photos_first_def photos_made_def
      low_space_def fs_defs)

lemma photos_second_commit:
  "write_and_commit photos_first ''a_1.txt'' ''/opt/app/homedrive_storage/a_1.txt''
     [Chunk ''helloworld''] = (Inr ''a_1.txt'', photos_second)"
  by (simp add: write_and_commit_def write_then_rename_def photos_second_def photos_first_def
      photos_made_def low_space_def fs_defs)

lemma stream_ten_bytes: "stream ten_bytes = [Chunk ''helloworld'']"
  by (simp add: ten_bytes_def)

lemma first_folder_upload:
  "save_uploaded_file photos_made ''/opt/app'' ten_bytes [] (Some ''Photos/a.txt'')
     = Some (Inr ''Photos/a.txt'', photos_first)"
proof -
  have "free_upload_name photos_made ''/opt/app'' [] ''a'' ''.txt'' (Suc 0)
          (''Photos/a.txt'', ''/opt/app/homedrive_storage/Photos/a.txt'')
        = Some (Inr (''Photos/a.txt'', ''/opt/app/homedrive_storage/Photos/a.txt''))"
    by (subst free_upload_name.simps) (simp add: photos_made_facts)
  then show ?thesis
    by (simp add: save_uploaded_file_def prepare_upload_def upload_name_photos
        MAX_FILENAME_LENGTH_def photos_paths photos_made_facts splitext_a_txt Let_def
        stream_ten_bytes photos_first_commit)
qed

lemma second_folder_upload:
  "save_uploaded_file photos_first ''/opt/app'' ten_bytes [] (Some ''Photos/a.txt'')
     = Some (Inr ''a_1.txt'', photos_second)"
proof -
  have "free_upload_name photos_first ''/opt/app'' [] ''a'' ''.txt'' (Suc (Suc 0))
          (''a_1.txt'', ''/opt/app/homedrive_storage/a_1.txt'')
        = Some (Inr (''a_1.txt'', ''/opt/app/homedrive_storage/a_1.txt''))"
    by (subst free_upload_name.simps) (simp add: photos_first_facts)
  then have "free_upload_name photos_first ''/opt/app'' [] ''a'' ''.txt'' (Suc 0)
          (''Photos/a.txt'', ''/opt/app/homedrive_storage/Photos/a.txt'')
        = Some (Inr (''a_1.txt'', ''/opt/app/homedrive_storage/a_1.txt''))"
    by (subst free_upload_name.simps)
       (simp add: photos_first_facts str_nat_one full_path_a_1_txt Let_def)
  then show ?thesis
    by (simp add: save_uploaded_file_def prepare_upload_def upload_name_photos
        MAX_FILENAME_LENGTH_def photos_paths photos_first_facts splitext_a_txt Let_def
        stream_ten_bytes photos_second_commit)
qed

text \<open>
  C8. Two uploads of a file \<open>a.txt\<close> with the relative path \<open>Photos/a.txt\<close> (a folder
  upload into the storage root) go to the same folder \<open>Photos\<close>. The first is stored as
  \<open>Photos/a.txt\<close>. For the second, the collision loop builds the new path from
  \<open>user_path\<close> and not from the upload folder: the file is stored as \<open>a_1.txt\<close> in the
  storage root, and the folder \<open>Photos\<close> holds no \<open>a_1.txt\<close>.
\<close>

theorem folder_upload_collision_leaves_folder:
  "save_uploaded_file photos_made ''/opt/app'' ten_bytes [] (Some ''Photos/a.txt'')
     = Some (Inr ''Photos/a.txt'', photos_first)
   \<and> save_uploaded_file photos_first ''/opt/app'' ten_bytes [] (Some ''Photos/a.txt'')
     = Some (Inr ''a_1.txt'', photos_second)
   \<and> stat photos_second ''/opt/app/homedrive_storage/Photos/a.txt'' = Some (File ''helloworld'')
   \<and> stat photos_second ''/opt/app/homedrive_storage/a_1.txt'' = Some (File ''helloworld'')
   \<and> stat photos_second ''/opt/app/homedrive_storage/Photos/a_1.txt'' = None"
proof -
  have "stat photos_second ''/opt/app/homedrive_storage/Photos/a.txt'' = Some (File ''helloworld'')"
    "stat photos_second ''/opt/app/homedrive_storage/a_1.txt'' = Some (File ''helloworld'')"
    "stat photos_second ''/opt/app/homedrive_storage/Photos/a_1.txt'' = None"
    by (simp_all add: photos_second_def photos_first_def photos_made_def low_space_def fs_defs)
  with first_folder_upload second_folder_upload show ?thesis by simp
qed

section \<open>Expiry cleanup\<close>

lemma rm_seq_jam_root:
  "rm_seq s (rm_order (nodes s) k) = (Some e, s')
     \<Longrightarrow> lookup (nodes s') k = lookup (nodes s) k"
proof (induction "length (rm_order (nodes s) k)" arbitrary: s rule: less_induct)
  case less
  obtain q qs where o: "rm_order (nodes s) k = q # qs"
    using rm_order_nonempty [of "nodes s" k] by (cases "rm_order (nodes s) k") auto
  show ?case
  proof (cases "q \<in> set (undeletable s)")
    case True
    with less.prems o show ?thesis by simp
  next
    case False
    define s1 where "s1 = s\<lparr>nodes := AList.delete q (nodes s),
        disk_free := disk_free s + (case lookup (nodes s) q of None \<Rightarrow> 0 | Some n \<Rightarrow> file_bytes n)\<rparr>"
    from False less.prems o have run: "rm_seq s1 qs = (Some e, s')" by (simp add: s1_def)
    have qk: "q \<noteq> k"
    proof
      assume "q = k"
      with o have "qs = []" by (auto dest: rm_order_head_self)
      with run show False by simp
    qed
    from rm_order_step [OF o this] have qs: "rm_order (nodes s1) k = qs" by (simp add: s1_def)
    with o have "length (rm_order (nodes s1) k) < length (rm_order (nodes s) k)" by simp
    from less.hyps [OF this] run qs have "lookup (nodes s') k = lookup (nodes s1) k" by simp
    with qk show ?thesis by (auto simp: s1_def lookup_delete)
  qed
qed

lemma purge_item:
  assumes "abs_normal ed" "plain n"
  shows "purge s (os_path_join (TRASH_DIR ed) n) =
     (if trash_ok s ed then
        (case lookup (nodes s) (trash_loc ed @ [n]) of
           None \<Rightarrow> (None, s)
         | Some Dir \<Rightarrow> rm_seq s (rm_order (nodes s) (trash_loc ed @ [n]))
         | Some (File c) \<Rightarrow>
             if trash_loc ed @ [n] \<in> set (undeletable s) then (Some PermissionError, s)
             else (None, s\<lparr>nodes := AList.delete (trash_loc ed @ [n]) (nodes s),
                           disk_free := disk_free s + length c\<rparr>))
      else (None, s))"
  by (auto simp: purge_def os_path_exists_def os_path_isdir_def stat_def
      locate_trash_item [OF assms] trash_ok_def shutil_rmtree_def os_remove_def
      split: option.splits node.splits)

lemma purge_effect:
  assumes ed: "abs_normal ed" and n: "plain n"
    and run: "purge s (os_path_join (TRASH_DIR ed) n) = (r, s')"
  shows "undeletable s' = undeletable s \<and> manifest_file s' = manifest_file s
         \<and> (\<exists>D. (\<forall>x \<in> set D. is_under (trash_loc ed @ [n]) x)
                  \<and> nodes s' = filter (\<lambda>e. fst e \<notin> set D) (nodes s))"
proof -
  let ?k = "trash_loc ed @ [n]"
  note p = run [unfolded purge_item [OF ed n]]
  consider (same) "s' = s"
    | (unlink) "nodes s' = AList.delete ?k (nodes s)" "undeletable s' = undeletable s"
        "manifest_file s' = manifest_file s"
    | (rmtree) "rm_seq s (rm_order (nodes s) ?k) = (r, s')"
    using p by (auto split: if_splits option.splits node.splits)
  then show ?thesis
  proof cases
    case same
    then show ?thesis by (auto intro: exI [of _ "[]"])
  next
    case unlink
    then show ?thesis
      by (auto intro!: exI [of _ "[?k]"] simp: delete_as_filter under_refl)
  next
    case rmtree
    from rm_seq_effect [OF this] obtain D where D: "set D \<subseteq> set (rm_order (nodes s) ?k)"
      "nodes s' = filter (\<lambda>e. fst e \<notin> set D) (nodes s)"
      and u: "undeletable s' = undeletable s" "manifest_file s' = manifest_file s"
      by blast
    from D(1) have "\<forall>x \<in> set D. is_under ?k x" by (auto dest: rm_order_under)
    with D(2) u show ?thesis by blast
  qed
qed

lemma purge_frame:
  assumes ed: "abs_normal ed" and n: "plain n"
    and run: "purge s (os_path_join (TRASH_DIR ed) n) = (r, s')"
  shows "undeletable s' = undeletable s" and "manifest_file s' = manifest_file s"
    and "\<And>k. \<not> is_under (trash_loc ed @ [n]) k \<Longrightarrow> lookup (nodes s') k = lookup (nodes s) k"
    and "\<And>k. length k \<le> length (trash_loc ed) \<Longrightarrow> lookup (nodes s') k = lookup (nodes s) k"
    and "trash_ok s' ed = trash_ok s ed"
    and "\<And>m. m \<noteq> n \<Longrightarrow>
           subtree (nodes s') (trash_loc ed @ [m]) = subtree (nodes s) (trash_loc ed @ [m])"
proof -
  let ?k = "trash_loc ed @ [n]"
  from purge_effect [OF assms] obtain D where D: "\<forall>x \<in> set D. is_under ?k x"
    "nodes s' = filter (\<lambda>e. fst e \<notin> set D) (nodes s)"
    and u: "undeletable s' = undeletable s" "manifest_file s' = manifest_file s"
    by blast
  from u show "undeletable s' = undeletable s" "manifest_file s' = manifest_file s" .
  show out: "lookup (nodes s') k = lookup (nodes s) k" if "\<not> is_under ?k k" for k
    using that D by (auto simp: lookup_filter [of "\<lambda>x. x \<notin> set D"])
  show short: "lookup (nodes s') k = lookup (nodes s) k" if "length k \<le> length (trash_loc ed)" for k
    using that by (intro out not_under_shorter) simp
  show "trash_ok s' ed = trash_ok s ed"
    by (rule trash_ok_after_removal) (rule short)
  show "subtree (nodes s') (trash_loc ed @ [m]) = subtree (nodes s) (trash_loc ed @ [m])"
    if "m \<noteq> n" for m
  proof -
    have "fst e \<notin> set D" if "is_under (trash_loc ed @ [m]) (fst e)" for e
    proof
      assume "fst e \<in> set D"
      with D(1) have "is_under ?k (fst e)" by blast
      with that have "trash_loc ed @ [m] = ?k" by (auto simp: is_under_def)
      with \<open>m \<noteq> n\<close> show False by simp
    qed
    then show ?thesis by (auto simp: subtree_def D(2) intro: filter_cong)
  qed
qed

lemma stuck_iff:
  assumes "abs_normal ed" "plain n"
  shows "stuck s ed n =
     (trash_ok s ed \<and>
      (case lookup (nodes s) (trash_loc ed @ [n]) of
         None \<Rightarrow> False
       | Some Dir \<Rightarrow> \<exists>q \<in> set (rm_order (nodes s) (trash_loc ed @ [n])). q \<in> set (undeletable s)
       | Some (File c) \<Rightarrow> trash_loc ed @ [n] \<in> set (undeletable s)))"
  by (simp add: stuck_def purge_item [OF assms] rm_seq_fails_iff del: not_None_eq
      split: option.split node.split)

lemma jammed_iff:
  assumes "abs_normal ed" "plain n"
  shows "jammed s ed n =
     (trash_ok s ed \<and>
      (case lookup (nodes s) (trash_loc ed @ [n]) of
         None \<Rightarrow> False
       | Some Dir \<Rightarrow> hd (rm_order (nodes s) (trash_loc ed @ [n])) \<in> set (undeletable s)
       | Some (File c) \<Rightarrow> trash_loc ed @ [n] \<in> set (undeletable s)))"
proof -
  let ?k = "trash_loc ed @ [n]"
  have "(rm_seq s (rm_order (nodes s) ?k) = (Some PermissionError, s))
          = (hd (rm_order (nodes s) ?k) \<in> set (undeletable s))"
    using rm_seq_jam [of s ?k PermissionError s]
      rm_seq_blocked_head [of "rm_order (nodes s) ?k" s] rm_order_nonempty [of "nodes s" ?k]
    by blast
  then show ?thesis
    by (simp add: jammed_def purge_item [OF assms] split: option.split node.split)
qed

lemma jammed_stuck: "jammed s ed n \<Longrightarrow> stuck s ed n"
  by (simp add: jammed_def stuck_def)

lemma jammed_unchanged:
  "jammed s ed n \<Longrightarrow> purge s (os_path_join (TRASH_DIR ed) n) = (r, s') \<Longrightarrow> s' = s"
  by (simp add: jammed_def)

text \<open>A purge that raised leaves the item jammed.\<close>

lemma purge_failed_jammed:
  assumes ed: "abs_normal ed" and n: "plain n"
    and run: "purge s (os_path_join (TRASH_DIR ed) n) = (Some e, s')"
  shows "jammed s' ed n"
proof -
  let ?k = "trash_loc ed @ [n]"
  note p = run [unfolded purge_item [OF ed n]]
  note f = purge_frame [OF ed n run]
  from p have ok: "trash_ok s ed" by (auto split: if_splits)
  from p ok consider (unlink) c where "lookup (nodes s) ?k = Some (File c)"
      "?k \<in> set (undeletable s)" "s' = s"
    | (rmtree) "lookup (nodes s) ?k = Some Dir" "rm_seq s (rm_order (nodes s) ?k) = (Some e, s')"
    by (auto split: if_splits option.splits node.splits)
  then show ?thesis
  proof cases
    case unlink
    with ok show ?thesis by (simp add: jammed_iff [OF ed n])
  next
    case rmtree
    from rm_seq_jam [OF rmtree(2)] rm_seq_jam_root [OF rmtree(2)] rmtree(1) ok f(5)
    show ?thesis by (simp add: jammed_iff [OF ed n])
  qed
qed

text \<open>A purge that returned leaves nothing of the item.\<close>

lemma purge_done_gone:
  assumes ed: "abs_normal ed" and n: "plain n"
    and run: "purge s (os_path_join (TRASH_DIR ed) n) = (None, s')"
  shows "\<not> stuck s' ed n"
proof -
  let ?k = "trash_loc ed @ [n]"
  note p = run [unfolded purge_item [OF ed n]]
  have "\<not> trash_ok s' ed \<or> lookup (nodes s') ?k = None"
  proof (cases "trash_ok s ed")
    case False
    with p show ?thesis by simp
  next
    case True
    show ?thesis
    proof (cases "lookup (nodes s) ?k")
      case None
      with p True show ?thesis by simp
    next
      case (Some x)
      show ?thesis
      proof (cases x)
        case Dir
        with p True Some have r: "rm_seq s (rm_order (nodes s) ?k) = (None, s')" by simp
        from rm_seq_effect [OF r]
        have "nodes s' = filter (\<lambda>e. fst e \<notin> set (rm_order (nodes s) ?k)) (nodes s)" by auto
        moreover have "?k \<in> set (rm_order (nodes s) ?k)" by (subst rm_order_mem) simp
        ultimately show ?thesis
          by (simp add: lookup_filter [of "\<lambda>x. x \<notin> set (rm_order (nodes s) ?k)"])
      next
        case (File c)
        with p True Some show ?thesis by (auto simp: lookup_delete split: if_splits)
      qed
    qed
  qed
  then show ?thesis by (auto simp: stuck_iff [OF ed n])
qed

text \<open>The purge of one item changes nothing for the others.\<close>

lemma purge_keeps_stuck:
  assumes ed: "abs_normal ed" and n: "plain n" and m: "plain m"
    and run: "purge s (os_path_join (TRASH_DIR ed) n) = (r, s')"
  shows "stuck s' ed m = stuck s ed m"
proof (cases "m = n")
  case True
  show ?thesis
  proof (cases r)
    case None
    with run purge_done_gone [OF ed n] have "\<not> stuck s' ed n" by simp
    moreover from run None have "\<not> stuck s ed n" by (simp add: stuck_def)
    ultimately show ?thesis using True by simp
  next
    case (Some e)
    with run purge_failed_jammed [OF ed n] have "stuck s' ed n" by (auto intro: jammed_stuck)
    moreover from run Some have "stuck s ed n" by (simp add: stuck_def)
    ultimately show ?thesis using True by simp
  qed
next
  case False
  note f = purge_frame [OF ed n run]
  let ?k = "trash_loc ed @ [m]"
  from False have "\<not> is_under (trash_loc ed @ [n]) ?k" by (simp add: is_under_def)
  then have l: "lookup (nodes s') ?k = lookup (nodes s) ?k" by (rule f(3))
  have o: "rm_order (nodes s') ?k = rm_order (nodes s) ?k"
    by (rule rm_order_frame) (rule f(6) [OF False])
  show ?thesis by (simp add: stuck_iff [OF ed m] l o f(1,5) split: option.split node.split)
qed

lemma purge_keeps_jammed:
  assumes ed: "abs_normal ed" and n: "plain n" and m: "plain m"
    and run: "purge s (os_path_join (TRASH_DIR ed) n) = (r, s')"
    and j: "jammed s ed m"
  shows "jammed s' ed m"
proof (cases "m = n")
  case True
  with j run have "s' = s" by (auto dest: jammed_unchanged)
  with j show ?thesis by simp
next
  case False
  note f = purge_frame [OF ed n run]
  let ?k = "trash_loc ed @ [m]"
  from False have "\<not> is_under (trash_loc ed @ [n]) ?k" by (simp add: is_under_def)
  then have l: "lookup (nodes s') ?k = lookup (nodes s) ?k" by (rule f(3))
  have o: "rm_order (nodes s') ?k = rm_order (nodes s) ?k"
    by (rule rm_order_frame) (rule f(6) [OF False])
  from j show ?thesis by (simp add: jammed_iff [OF ed m] l o f(1,5) split: option.splits node.splits)
qed

lemma jammed_manifest_update:
  assumes "abs_normal ed" "plain n"
  shows "jammed (s\<lparr>manifest_file := m\<rparr>) ed n = jammed s ed n"
  by (simp add: jammed_iff [OF assms] trash_ok_def split: option.split node.split)

text \<open>
  The loop of \<open>cleanup_old_trash\<close>: it keeps the items that are not expired and those whose
  purge raises, reports the latter, counts the others, and leaves the items that it reported
  jammed.
\<close>

lemma cleanup_loop_run:
  assumes ed: "abs_normal ed"
  shows "list_all (\<lambda>i. plain (trash_name i)) items \<Longrightarrow>
     cleanup_loop ed t items (s, keep, d, errs) = (s', keep', d', errs') \<Longrightarrow>
       keep' = keep @ filter (\<lambda>i. \<not> expired t i \<or> stuck s ed (trash_name i)) items
     \<and> errs' = errs @ map trash_name (filter (\<lambda>i. expired t i \<and> stuck s ed (trash_name i)) items)
     \<and> d' = d + length (filter (\<lambda>i. expired t i \<and> \<not> stuck s ed (trash_name i)) items)
     \<and> (\<forall>i \<in> set items. expired t i \<and> stuck s ed (trash_name i) \<longrightarrow> jammed s' ed (trash_name i))
     \<and> (\<forall>m. plain m \<and> jammed s ed m \<longrightarrow> jammed s' ed m)
     \<and> manifest_file s' = manifest_file s
     \<and> (\<forall>k. length k \<le> length (trash_loc ed) \<longrightarrow> lookup (nodes s') k = lookup (nodes s) k)"
proof (induction items arbitrary: s keep d errs)
  case Nil
  then show ?case by simp
next
  case (Cons i rest)
  from Cons.prems(1) have pi: "plain (trash_name i)"
    and pr: "list_all (\<lambda>i. plain (trash_name i)) rest" by simp_all
  show ?case
  proof (cases "expired t i")
    case False
    with Cons.prems(2) have "cleanup_loop ed t rest (s, keep @ [i], d, errs) = (s', keep', d', errs')"
      by (simp add: expired_def Let_def)
    from Cons.IH [OF pr this] False show ?thesis by simp
  next
    case True
    obtain r s1 where p: "purge s (os_path_join (TRASH_DIR ed) (trash_name i)) = (r, s1)"
      by (cases "purge s (os_path_join (TRASH_DIR ed) (trash_name i))") auto
    note f = purge_frame [OF ed pi p]
    have st: "stuck s1 ed (trash_name j) = stuck s ed (trash_name j)" if "j \<in> set rest" for j
      using that pr by (intro purge_keeps_stuck [OF ed pi _ p]) (simp add: list_all_iff)
    have mono: "jammed s1 ed m" if "plain m" "jammed s ed m" for m
      using that by (intro purge_keeps_jammed [OF ed pi _ p])
    show ?thesis
    proof (cases r)
      case None
      with p have ns: "\<not> stuck s ed (trash_name i)" by (simp add: stuck_def)
      from Cons.prems(2) True p None
      have "cleanup_loop ed t rest (s1, keep, d + 1, errs) = (s', keep', d', errs')"
        by (simp add: expired_def Let_def)
      from Cons.IH [OF pr this] True ns st mono f(2,4) show ?thesis
        by (simp cong: filter_cong)
    next
      case (Some e)
      with p have ys: "stuck s ed (trash_name i)" by (simp add: stuck_def)
      from p Some have j1: "jammed s1 ed (trash_name i)"
        by (auto intro: purge_failed_jammed [OF ed pi])
      from Cons.prems(2) True p Some
      have "cleanup_loop ed t rest (s1, keep @ [i], d, errs @ [trash_name i])
              = (s', keep', d', errs')"
        by (simp add: expired_def Let_def)
      from Cons.IH [OF pr this] True ys st mono f(2,4) j1 pi show ?thesis
        by (simp cong: filter_cong)
    qed
  qed
qed

text \<open>The loop over items that are jammed or not expired keeps all of them and the file system.\<close>

lemma cleanup_loop_jammed:
  "\<forall>i \<in> set items. expired t i \<longrightarrow> jammed s ed (trash_name i) \<Longrightarrow>
     cleanup_loop ed t items (s, keep, d, errs)
       = (s, keep @ items, d, errs @ map trash_name (filter (expired t) items))"
  by (induction items arbitrary: keep errs) (auto simp: jammed_def expired_def Let_def)

lemma expired_mono: "expired t i \<Longrightarrow> t \<le> t' \<Longrightarrow> expired t' i"
  by (simp add: expired_def)

lemma trash_items_load:
  "load_trash_manifest s ed = Inr (Manifest items) \<Longrightarrow> trash_items s ed = items"
  by (simp add: trash_items_def)

text \<open>
  C7 (as the code has it). When \<open>cleanup_old_trash\<close> has returned, a second run on the file system that it left, at
  a clock reading \<open>now'\<close> that is not earlier and at which no item of the manifest has newly
  passed the retention age, deletes zero items, reports the same failures and leaves the file
  system as it is. The manifest that the first run wrote holds exactly the items that were
  not expired and the items whose purge raised, in their order: every entry whose backing
  object could not be deleted is retained. The failures reported are the names of the
  expired items whose purge raised, and the count is the number of the other expired items.
\<close>

theorem cleanup_idempotent:
  assumes ed: "abs_normal ed"
    and names: "manifest_names_plain s ed"
    and run: "cleanup_old_trash s ed now = (Inr (d1, errs1), s1)"
    and later: "now \<le> now'"
    and quiet: "\<forall>i \<in> set (trash_items s ed). expired (int now') i \<longrightarrow> expired (int now) i"
  shows "cleanup_old_trash s1 ed now' = (Inr (0, errs1), s1)
         \<and> trash_items s1 ed
             = filter (\<lambda>i. \<not> expired (int now) i \<or> stuck s ed (trash_name i)) (trash_items s ed)
         \<and> errs1
             = map trash_name
                 (filter (\<lambda>i. expired (int now) i \<and> stuck s ed (trash_name i)) (trash_items s ed))
         \<and> d1 = length
                  (filter (\<lambda>i. expired (int now) i \<and> \<not> stuck s ed (trash_name i))
                     (trash_items s ed))"
proof (cases "os_path_exists s (TRASH_DIR ed)")
  case False
  then have "\<not> os_path_isdir s (TRASH_DIR ed)"
    by (simp add: os_path_exists_def os_path_isdir_def)
  then have "trash_items s ed = []"
    by (simp add: trash_items_def load_trash_manifest_def manifest_exists_def)
  with run False show ?thesis by (auto simp: cleanup_old_trash_def)
next
  case True
  from load_trash_manifest_returns obtain doc where doc: "load_trash_manifest s ed = Inr doc"
    by blast
  with run True obtain items where items: "doc = Manifest items"
    by (cases doc) (auto simp: cleanup_old_trash_def items_of_def)
  with names doc have pl: "list_all (\<lambda>i. plain (trash_name i)) items"
    by (simp add: manifest_names_plain_def)
  from doc items have ti: "trash_items s ed = items" by (simp add: trash_items_load)
  obtain sL K dL eL where loop: "cleanup_loop ed (int now) items (s, [], 0, []) = (sL, K, dL, eL)"
    by (metis prod_cases4)
  from cleanup_loop_run [OF ed pl loop]
  have K: "K = filter (\<lambda>i. \<not> expired (int now) i \<or> stuck s ed (trash_name i)) items"
    and eL: "eL = map trash_name
                    (filter (\<lambda>i. expired (int now) i \<and> stuck s ed (trash_name i)) items)"
    and dL: "dL = length (filter (\<lambda>i. expired (int now) i \<and> \<not> stuck s ed (trash_name i)) items)"
    and jam: "\<forall>i \<in> set items. expired (int now) i \<and> stuck s ed (trash_name i)
                \<longrightarrow> jammed sL ed (trash_name i)"
    and short: "\<And>k. length k \<le> length (trash_loc ed) \<Longrightarrow> lookup (nodes sL) k = lookup (nodes s) k"
    by simp_all
  from True have exL: "os_path_exists sL (TRASH_DIR ed)"
    using trash_dir_after_removal [OF ed short] by simp
  from run True doc items loop
  have save: "save_trash_manifest sL ed (Manifest K) = (None, s1)"
    and e1: "errs1 = eL" and d1: "d1 = dL"
    by (auto simp: cleanup_old_trash_def items_of_def split: prod.splits option.splits)
  from save have ok: "trash_ok sL ed" and s1: "s1 = sL\<lparr>manifest_file := Parsed (Manifest K)\<rparr>"
    by (auto simp: save_trash_manifest_ok [OF ed exL] split: if_splits)
  have ok1: "trash_ok s1 ed" using ok by (simp add: s1 trash_ok_def)
  have ex1: "os_path_exists s1 (TRASH_DIR ed)"
    using ok1 trash_dir_status [OF ed, of s1] by (simp add: os_path_exists_def os_path_isdir_def)
  have load1: "load_trash_manifest s1 ed = Inr (Manifest K)"
    using ok1 by (simp add: load_trash_manifest_def manifest_exists_def trash_dir_status [OF ed]
        read_manifest_def s1)
  have inK: "i \<in> set items \<and> (expired (int now) i \<longrightarrow> stuck s ed (trash_name i))"
    if "i \<in> set K" for i
    using that by (auto simp: K)
  have same: "expired (int now') i = expired (int now) i" if "i \<in> set K" for i
    using that inK [OF that] quiet later expired_mono [of "int now" i "int now'"]
    by (auto simp: ti)
  have jam1: "\<forall>i \<in> set K. expired (int now') i \<longrightarrow> jammed s1 ed (trash_name i)"
  proof (intro ballI impI)
    fix i assume i: "i \<in> set K" and "expired (int now') i"
    with same have "expired (int now) i" by simp
    with inK [OF i] jam have "jammed sL ed (trash_name i)" by blast
    moreover from inK [OF i] pl have "plain (trash_name i)" by (simp add: list_all_iff)
    ultimately show "jammed s1 ed (trash_name i)"
      by (simp add: s1 jammed_manifest_update [OF ed])
  qed
  have "filter (expired (int now')) K = filter (expired (int now)) K"
    using same by (auto intro: filter_cong)
  also have "\<dots> = filter (\<lambda>i. expired (int now) i \<and> stuck s ed (trash_name i)) items"
    by (auto simp: K intro: filter_cong)
  finally have eK: "map trash_name (filter (expired (int now')) K) = eL" by (simp add: eL)
  have loop1: "cleanup_loop ed (int now') K (s1, [], 0, []) = (s1, K, 0, eL)"
    using cleanup_loop_jammed [OF jam1, of "[]" 0 "[]"] by (simp add: eK)
  have "s1\<lparr>manifest_file := Parsed (Manifest K)\<rparr> = s1"
    by (simp add: s1)
  with ok1 have save1: "save_trash_manifest s1 ed (Manifest K) = (None, s1)"
    by (simp add: save_trash_manifest_ok [OF ed ex1])
  have second: "cleanup_old_trash s1 ed now' = (Inr (0, errs1), s1)"
    by (simp add: cleanup_old_trash_def ex1 load1 items_of_def loop1 save1 e1)
  from load1 have "trash_items s1 ed = K" by (rule trash_items_load)
  with second show ?thesis by (simp add: K ti e1 eL d1 dL)
qed

lemma old_trash_names:
  "os_path_join ''/opt/app/homedrive_storage/.trash'' ''item_100_a.txt''
     = ''/opt/app/homedrive_storage/.trash/item_100_a.txt''"
  "os_path_join ''/opt/app/homedrive_storage/.trash'' ''item_100_docs''
     = ''/opt/app/homedrive_storage/.trash/item_100_docs''"
  "os_path_join ''/opt/app/homedrive_storage/.trash'' ''item_10_e.txt''
     = ''/opt/app/homedrive_storage/.trash/item_10_e.txt''"
  by (simp_all add: path_defs)

lemma old_trash_times:
  "deletion_time item_a = 100" "deletion_time item_d = 100" "deletion_time item_c = 1699999999"
  "trash_name item_a = ''item_100_a.txt''" "trash_name item_d = ''item_100_docs''"
  "deletion_time item_e = 10" "trash_name item_e = ''item_10_e.txt''"
  by (simp_all add: item_a_def item_d_def item_c_def item_e_def)

lemma old_trash_load:
  "os_path_exists old_trash ''/opt/app/homedrive_storage/.trash''"
  "load_trash_manifest old_trash ''/opt/app'' = Inr (Manifest [item_a, item_d, item_c])"
  by (simp_all add: old_trash_def load_trash_manifest_def manifest_exists_def read_manifest_def
      trash_dir_app fs_defs)

lemma old_trash_purges:
  "\<exists>s1. purge old_trash ''/opt/app/homedrive_storage/.trash/item_100_a.txt'' = (None, s1)
        \<and> purge s1 ''/opt/app/homedrive_storage/.trash/item_100_docs''
            = (Some PermissionError,
               old_trash_cleaned\<lparr>manifest_file := Parsed (Manifest [item_a, item_d, item_c])\<rparr>)"
proof -
  let ?I = "old_trash\<lparr>nodes := AList.delete
              [''opt'', ''app'', ''homedrive_storage'', ''.trash'', ''item_100_a.txt'']
              (nodes old_trash), disk_free := 1003\<rparr>"
  have a: "purge old_trash ''/opt/app/homedrive_storage/.trash/item_100_a.txt'' = (None, ?I)"
    by (simp add: purge_def old_trash_def fs_defs)
  have o: "rm_order (nodes ?I) [''opt'', ''app'', ''homedrive_storage'', ''.trash'', ''item_100_docs'']
             = [[''opt'', ''app'', ''homedrive_storage'', ''.trash'', ''item_100_docs'', ''x.txt''],
                [''opt'', ''app'', ''homedrive_storage'', ''.trash'', ''item_100_docs'', ''y.txt''],
                [''opt'', ''app'', ''homedrive_storage'', ''.trash'', ''item_100_docs'']]"
    by (subst rm_order.simps) (simp add: old_trash_def listdir_def lookup_def)
  have d: "purge ?I ''/opt/app/homedrive_storage/.trash/item_100_docs''
             = (Some PermissionError,
                old_trash_cleaned\<lparr>manifest_file := Parsed (Manifest [item_a, item_d, item_c])\<rparr>)"
    by (simp add: purge_def shutil_rmtree_def old_trash_def old_trash_cleaned_def fs_defs
          file_bytes_def o [unfolded old_trash_def, simplified])
  from a d show ?thesis by blast
qed

lemma old_trash_save:
  "save_trash_manifest (old_trash_cleaned\<lparr>manifest_file := m\<rparr>) ''/opt/app''
     (Manifest [item_d, item_c]) = (None, old_trash_cleaned)"
  by (simp add: save_trash_manifest_def trash_dir_app old_trash_cleaned_def fs_defs)

lemma old_trash_first_run:
  "cleanup_old_trash old_trash ''/opt/app'' 1700000000
     = (Inr (1, [''item_100_docs'']), old_trash_cleaned)"
proof -
  from old_trash_purges obtain s1
    where "purge old_trash ''/opt/app/homedrive_storage/.trash/item_100_a.txt'' = (None, s1)"
      and "purge s1 ''/opt/app/homedrive_storage/.trash/item_100_docs''
            = (Some PermissionError,
               old_trash_cleaned\<lparr>manifest_file := Parsed (Manifest [item_a, item_d, item_c])\<rparr>)"
    by blast
  then show ?thesis
    by (simp add: cleanup_old_trash_def trash_dir_app old_trash_load items_of_def
        TRASH_MAX_AGE_DAYS_def old_trash_times old_trash_names old_trash_save)
qed

text \<open>
  The first run deletes one file, removes one of the two files of the folder and fails on
  the other, so the folder stays in the manifest; a second run one second later deletes
  nothing and reports the folder again.
\<close>

theorem cleanup_idempotent_witness:
  "abs_normal ''/opt/app''
   \<and> manifest_names_plain old_trash ''/opt/app''
   \<and> cleanup_old_trash old_trash ''/opt/app'' 1700000000
       = (Inr (1, [''item_100_docs'']), old_trash_cleaned)
   \<and> (1700000000 :: nat) \<le> 1700000001
   \<and> trash_items old_trash ''/opt/app'' = [item_a, item_d, item_c]
   \<and> expired (int 1700000000) item_a \<and> expired (int 1700000000) item_d
   \<and> \<not> expired (int 1700000001) item_c
   \<and> cleanup_old_trash old_trash_cleaned ''/opt/app'' 1700000001
       = (Inr (0, [''item_100_docs'']), old_trash_cleaned)
   \<and> trash_items old_trash_cleaned ''/opt/app'' = [item_d, item_c]
   \<and> stat old_trash_cleaned ''/opt/app/homedrive_storage/.trash/item_100_docs/x.txt'' = None
   \<and> stat old_trash_cleaned ''/opt/app/homedrive_storage/.trash/item_100_docs/y.txt''
       = Some (File ''yyy'')"
proof -
  have names: "manifest_names_plain old_trash ''/opt/app''"
    by (simp add: manifest_names_plain_def old_trash_load item_a_def item_d_def item_c_def
        plain_def)
  have ti: "trash_items old_trash ''/opt/app'' = [item_a, item_d, item_c]"
    by (simp add: trash_items_def old_trash_load)
  have ex: "expired (int 1700000000) item_a" "expired (int 1700000000) item_d"
    "\<not> expired (int 1700000001) item_c"
    by (simp_all add: expired_def TRASH_MAX_AGE_DAYS_def old_trash_times)
  have quiet: "\<forall>i \<in> set (trash_items old_trash ''/opt/app'').
                 expired (int 1700000001) i \<longrightarrow> expired (int 1700000000) i"
    using ex by (simp add: ti)
  have later: "(1700000000 :: nat) \<le> 1700000001" by simp
  have tc: "trash_items old_trash_cleaned ''/opt/app'' = [item_d, item_c]"
    by (simp add: trash_items_def old_trash_cleaned_def load_trash_manifest_def
        manifest_exists_def read_manifest_def trash_dir_app fs_defs)
  have st: "stat old_trash_cleaned ''/opt/app/homedrive_storage/.trash/item_100_docs/x.txt'' = None"
    "stat old_trash_cleaned ''/opt/app/homedrive_storage/.trash/item_100_docs/y.txt''
       = Some (File ''yyy'')"
    by (simp_all add: old_trash_cleaned_def fs_defs)
  from cleanup_idempotent [OF abs_normal_app names old_trash_first_run later quiet]
  have "cleanup_old_trash old_trash_cleaned ''/opt/app'' 1700000001
          = (Inr (0, [''item_100_docs'']), old_trash_cleaned)" by blast
  with abs_normal_app names old_trash_first_run ti ex tc st show ?thesis by simp
qed

lemma month_old_load:
  "os_path_exists month_old_trash ''/opt/app/homedrive_storage/.trash''"
  "load_trash_manifest month_old_trash ''/opt/app'' = Inr (Manifest [item_e])"
  by (simp_all add: month_old_trash_def load_trash_manifest_def manifest_exists_def
      read_manifest_def trash_dir_app fs_defs)

lemma month_old_purge:
  "purge month_old_trash ''/opt/app/homedrive_storage/.trash/item_10_e.txt''
     = (None, month_old_trash_emptied\<lparr>manifest_file := Parsed (Manifest [item_e])\<rparr>)"
  by (simp add: purge_def month_old_trash_def month_old_trash_emptied_def fs_defs)

lemma month_old_save:
  "save_trash_manifest month_old_trash ''/opt/app'' (Manifest [item_e]) = (None, month_old_trash)"
  "save_trash_manifest (month_old_trash_emptied\<lparr>manifest_file := m\<rparr>) ''/opt/app''
     (Manifest []) = (None, month_old_trash_emptied)"
  by (simp_all add: save_trash_manifest_def trash_dir_app month_old_trash_def
      month_old_trash_emptied_def fs_defs)

text \<open>
  C7 as stated fails when the clock advances: \<open>cleanup_old_trash\<close> reads the clock at
  every call. An item deleted at time 10 is 30 days old, and no older, at time 2592010: the
  run at that time deletes nothing and leaves the trash as it is, and the run that follows
  it one second later, with no item added in between, deletes the item.
\<close>

theorem second_run_deletes_after_clock_tick:
  "cleanup_old_trash month_old_trash ''/opt/app'' 2592010 = (Inr (0, []), month_old_trash)
   \<and> cleanup_old_trash month_old_trash ''/opt/app'' 2592011
       = (Inr (1, []), month_old_trash_emptied)"
  by (simp add: cleanup_old_trash_def trash_dir_app month_old_load items_of_def
      TRASH_MAX_AGE_DAYS_def old_trash_times old_trash_names month_old_purge month_old_save)

end
